theory Spec2Isabelle
  imports Complex_Main "HOL-Library.Sublist"
begin

section \<open>JSON values and the Python operations the client applies to them\<close>

text \<open>
  Everything the client reads is the result of \<^verbatim>\<open>resp.json()\<close>: nested Python values built
  from \<^verbatim>\<open>None\<close>, booleans, numbers, strings, lists and dicts. A dict is kept as an
  association list in insertion order and read with \<open>map_of\<close>. Numbers are rationals
  (every finite float is one); the client never computes with them, it only tests them
  for truth. Strings are \<open>string\<close>; the only characters the client inspects are ASCII
  (the prefixes \<^verbatim>\<open>t1_\<close>, \<^verbatim>\<open>t3_\<close>, the media extensions and \<^verbatim>\<open>&amp;\<close>).
\<close>

datatype json =
    JNull
  | JBool bool
  | JNum rat
  | JStr string
  | JArr "json list"
  | JObj "(string \<times> json) list"

text \<open>The exceptions that can leave the client.\<close>

datatype py_error =
    AttributeError
  | TypeError
  | KeyError
  | IndexError
  | RedditHTTPError
  | RequestException
  | JSONDecodeError

text \<open>Truth value of a Python object, as tested by \<^verbatim>\<open>if x\<close>, \<^verbatim>\<open>x or y\<close>, \<^verbatim>\<open>not x\<close>.\<close>

fun truthy :: "json \<Rightarrow> bool" where
  "truthy JNull = False"
| "truthy (JBool b) = b"
| "truthy (JNum n) = (n \<noteq> 0)"
| "truthy (JStr s) = (s \<noteq> [])"
| "truthy (JArr xs) = (xs \<noteq> [])"
| "truthy (JObj kv) = (kv \<noteq> [])"

text \<open>\<^verbatim>\<open>a or b\<close>\<close>

definition py_or :: "json \<Rightarrow> json \<Rightarrow> json" where
  "py_or a b = (if truthy a then a else b)"

text \<open>\<^verbatim>\<open>isinstance(x, dict)\<close>\<close>

fun is_dict :: "json \<Rightarrow> bool" where
  "is_dict (JObj kv) = True"
| "is_dict _ = False"

text \<open>\<^verbatim>\<open>x.get(k, dflt)\<close>: only a dict has the method.\<close>

fun dict_get :: "json \<Rightarrow> string \<Rightarrow> json \<Rightarrow> py_error + json" where
  "dict_get (JObj kv) k dflt = Inr (case map_of kv k of None \<Rightarrow> dflt | Some v \<Rightarrow> v)"
| "dict_get _ k dflt = Inl AttributeError"

text \<open>\<^verbatim>\<open>d.get(key)\<close> on a dict \<open>d\<close> where the key is itself a JSON value: a list or dict is
  unhashable, and no key of a parsed JSON object equals a non-string.\<close>

fun dict_get_value :: "json \<Rightarrow> json \<Rightarrow> py_error + json" where
  "dict_get_value (JObj kv) (JStr k) = Inr (case map_of kv k of None \<Rightarrow> JNull | Some v \<Rightarrow> v)"
| "dict_get_value (JObj kv) (JArr xs) = Inl TypeError"
| "dict_get_value (JObj kv) (JObj kv') = Inl TypeError"
| "dict_get_value (JObj kv) _ = Inr JNull"
| "dict_get_value _ _ = Inl AttributeError"

text \<open>\<^verbatim>\<open>x["k"]\<close> with a string key.\<close>

fun subscript :: "json \<Rightarrow> string \<Rightarrow> py_error + json" where
  "subscript (JObj kv) k = (case map_of kv k of None \<Rightarrow> Inl KeyError | Some v \<Rightarrow> Inr v)"
| "subscript _ k = Inl TypeError"

text \<open>\<^verbatim>\<open>x[i]\<close> with a non-negative integer index.\<close>

fun item_at :: "json \<Rightarrow> nat \<Rightarrow> py_error + json" where
  "item_at (JArr xs) i = (if i < length xs then Inr (xs ! i) else Inl IndexError)"
| "item_at (JStr s) i = (if i < length s then Inr (JStr [s ! i]) else Inl IndexError)"
| "item_at (JObj kv) i = Inl KeyError"
| "item_at _ i = Inl TypeError"

text \<open>The items a \<^verbatim>\<open>for\<close> loop over the value visits: a dict gives its keys, a string
  its characters (one-character strings), and \<^verbatim>\<open>None\<close>, booleans and numbers are not
  iterable. Every loop of the client reads its items as dicts, so that a key or a
  character makes its first iteration raise.\<close>

fun iter_items :: "json \<Rightarrow> py_error + json list" where
  "iter_items (JArr xs) = Inr xs"
| "iter_items (JStr s) = Inr (map (\<lambda>c. JStr [c]) s)"
| "iter_items (JObj kv) = Inr (map (\<lambda>p. JStr (fst p)) kv)"
| "iter_items _ = Inl TypeError"

text \<open>\<^verbatim>\<open>",".join(x)\<close>: every item must be a string.\<close>

fun join_with :: "string \<Rightarrow> string list \<Rightarrow> string" where
  "join_with sep [] = []"
| "join_with sep [s] = s"
| "join_with sep (s # t # ts) = s @ sep @ join_with sep (t # ts)"

fun str_items :: "json list \<Rightarrow> py_error + string list" where
  "str_items [] = Inr []"
| "str_items (JStr s # xs) = (case str_items xs of Inl e \<Rightarrow> Inl e | Inr ss \<Rightarrow> Inr (s # ss))"
| "str_items (_ # xs) = Inl TypeError"

definition comma_join :: "json \<Rightarrow> py_error + string" where
  "comma_join x =
     (case iter_items x of Inl e \<Rightarrow> Inl e
      | Inr xs \<Rightarrow> (case str_items xs of Inl e \<Rightarrow> Inl e | Inr ss \<Rightarrow> Inr (join_with '','' ss)))"

text \<open>\<^verbatim>\<open>s.lower()\<close>, on the ASCII letters: no other character lower-cases to a letter of
  one of the media extensions.\<close>

definition lower_char :: "char \<Rightarrow> char" where
  "lower_char c =
     (case map_of (zip ''ABCDEFGHIJKLMNOPQRSTUVWXYZ'' ''abcdefghijklmnopqrstuvwxyz'') c of
        None \<Rightarrow> c | Some l \<Rightarrow> l)"

definition lower :: "string \<Rightarrow> string" where
  "lower s = map lower_char s"

text \<open>\<^verbatim>\<open>s.replace("&amp;", "&")\<close>: left to right, occurrences do not overlap.\<close>

function replace_amp :: "string \<Rightarrow> string" where
  "replace_amp [] = []"
| "replace_amp (c # cs) =
     (if prefix ''&amp;'' (c # cs) then CHR ''&'' # replace_amp (drop 4 cs)
      else c # replace_amp cs)"
  by pat_completeness auto
termination
  by (relation "measure length") auto

text \<open>The key under which a hashable value sits in a Python \<^verbatim>\<open>set\<close>: \<^verbatim>\<open>True\<close> and
  \<^verbatim>\<open>1\<close> (and \<^verbatim>\<open>False\<close> and \<^verbatim>\<open>0\<close>) are the same member. Lists and dicts are unhashable.\<close>

fun hashable :: "json \<Rightarrow> bool" where
  "hashable (JArr xs) = False"
| "hashable (JObj kv) = False"
| "hashable _ = True"

fun set_key :: "json \<Rightarrow> json" where
  "set_key (JBool b) = JNum (if b then 1 else 0)"
| "set_key v = v"

section \<open>Media extractor\<close>

text \<open>
  \<^verbatim>\<open>_extract_media(info)\<close> appends candidate URLs to the list \<^verbatim>\<open>media_urls\<close> in four blocks
  and then removes duplicates. Each block is a function from the list so far to the
  list after it, or to the exception it raises.
\<close>

record media_info =
  media_urls :: "json list"
  primary_media_url :: "json option"

definition media_exts :: "string list" where
  "media_exts = [''.jpg'', ''.jpeg'', ''.png'', ''.gif'', ''.mp4'', ''.webm'']"

definition has_media_ext :: "string \<Rightarrow> bool" where
  "has_media_ext u = list_ex (\<lambda>ext. suffix ext (lower u)) media_exts"

text \<open>Block 1: \<^verbatim>\<open>url = info.get("url") or ""\<close>, appended when it ends in a media extension.\<close>

definition direct_link :: "json \<Rightarrow> json list \<Rightarrow> py_error + json list" where
  "direct_link info acc =
     (case dict_get info ''url'' JNull of Inl e \<Rightarrow> Inl e
      | Inr u \<Rightarrow>
         (case py_or u (JStr []) of
            JStr s \<Rightarrow> Inr (if has_media_ext s then acc @ [JStr s] else acc)
          | _ \<Rightarrow> Inl AttributeError))"

text \<open>\<^verbatim>\<open>if src: media_urls.append(src.replace("&amp;", "&"))\<close>\<close>

definition append_unescaped :: "json \<Rightarrow> json list \<Rightarrow> py_error + json list" where
  "append_unescaped src acc =
     (if truthy src then
        (case src of JStr s \<Rightarrow> Inr (acc @ [JStr (replace_amp s)]) | _ \<Rightarrow> Inl AttributeError)
      else Inr acc)"

text \<open>Block 2, per image: the source URL, then the URL of every resolution.\<close>

definition image_source :: "json \<Rightarrow> json list \<Rightarrow> py_error + json list" where
  "image_source img acc =
     (case dict_get img ''source'' JNull of Inl e \<Rightarrow> Inl e
      | Inr s \<Rightarrow>
         (case dict_get (py_or s (JObj [])) ''url'' JNull of Inl e \<Rightarrow> Inl e
          | Inr src \<Rightarrow> append_unescaped src acc))"

fun resolutions_loop :: "json list \<Rightarrow> json list \<Rightarrow> py_error + json list" where
  "resolutions_loop [] acc = Inr acc"
| "resolutions_loop (res # rs) acc =
     (case dict_get res ''url'' JNull of Inl e \<Rightarrow> Inl e
      | Inr u \<Rightarrow>
         (case append_unescaped u acc of Inl e \<Rightarrow> Inl e
          | Inr acc' \<Rightarrow> resolutions_loop rs acc'))"

definition image_resolutions :: "json \<Rightarrow> json list \<Rightarrow> py_error + json list" where
  "image_resolutions img acc =
     (case dict_get img ''resolutions'' JNull of Inl e \<Rightarrow> Inl e
      | Inr r \<Rightarrow>
         (case iter_items (py_or r (JArr [])) of Inl e \<Rightarrow> Inl e
          | Inr rs \<Rightarrow> resolutions_loop rs acc))"

fun images_loop :: "json list \<Rightarrow> json list \<Rightarrow> py_error + json list" where
  "images_loop [] acc = Inr acc"
| "images_loop (img # imgs) acc =
     (case image_source img acc of Inl e \<Rightarrow> Inl e
      | Inr acc1 \<Rightarrow>
         (case image_resolutions img acc1 of Inl e \<Rightarrow> Inl e
          | Inr acc2 \<Rightarrow> images_loop imgs acc2))"

definition preview_images :: "json \<Rightarrow> json list \<Rightarrow> py_error + json list" where
  "preview_images info acc =
     (case dict_get info ''preview'' JNull of Inl e \<Rightarrow> Inl e
      | Inr preview \<Rightarrow>
         if is_dict preview then
           (case dict_get preview ''images'' JNull of Inl e \<Rightarrow> Inl e
            | Inr images \<Rightarrow>
               (case iter_items (py_or images (JArr [])) of Inl e \<Rightarrow> Inl e
                | Inr imgs \<Rightarrow> images_loop imgs acc))
         else Inr acc)"

text \<open>Block 3: gallery items, looked up in \<^verbatim>\<open>media_metadata\<close>.\<close>

fun gallery_loop :: "json \<Rightarrow> json list \<Rightarrow> json list \<Rightarrow> py_error + json list" where
  "gallery_loop media_metadata [] acc = Inr acc"
| "gallery_loop media_metadata (item # items) acc =
     (case dict_get item ''media_id'' JNull of Inl e \<Rightarrow> Inl e
      | Inr media_id \<Rightarrow>
     (case dict_get_value media_metadata media_id of Inl e \<Rightarrow> Inl e
      | Inr meta \<Rightarrow>
     (case dict_get (py_or meta (JObj [])) ''s'' JNull of Inl e \<Rightarrow> Inl e
      | Inr s \<Rightarrow>
     (case dict_get (py_or s (JObj [])) ''u'' JNull of Inl e \<Rightarrow> Inl e
      | Inr src \<Rightarrow>
     (case append_unescaped src acc of Inl e \<Rightarrow> Inl e
      | Inr acc' \<Rightarrow> gallery_loop media_metadata items acc')))))"

definition gallery_items :: "json \<Rightarrow> json list \<Rightarrow> py_error + json list" where
  "gallery_items info acc =
     (case dict_get info ''gallery_data'' JNull of Inl e \<Rightarrow> Inl e
      | Inr gallery_data \<Rightarrow>
     (case dict_get info ''media_metadata'' JNull of Inl e \<Rightarrow> Inl e
      | Inr media_metadata \<Rightarrow>
         if is_dict gallery_data \<and> is_dict media_metadata then
           (case dict_get gallery_data ''items'' (JArr []) of Inl e \<Rightarrow> Inl e
            | Inr its \<Rightarrow>
               (case iter_items its of Inl e \<Rightarrow> Inl e
                | Inr items \<Rightarrow> gallery_loop media_metadata items acc))
         else Inr acc))"

text \<open>Block 4: the fallback URL of a Reddit-hosted video, appended as it is.\<close>

definition hosted_video :: "json \<Rightarrow> json list \<Rightarrow> py_error + json list" where
  "hosted_video info acc =
     (case dict_get info ''media'' JNull of Inl e \<Rightarrow> Inl e
      | Inr m \<Rightarrow>
     (case (if truthy m then Inr m else dict_get info ''secure_media'' JNull) of Inl e \<Rightarrow> Inl e
      | Inr media \<Rightarrow>
         if is_dict media then
           (case dict_get media ''reddit_video'' JNull of Inl e \<Rightarrow> Inl e
            | Inr rv \<Rightarrow>
               (case dict_get (py_or rv (JObj [])) ''fallback_url'' JNull of Inl e \<Rightarrow> Inl e
                | Inr fallback_url \<Rightarrow>
                    Inr (if truthy fallback_url then acc @ [fallback_url] else acc)))
         else Inr acc))"

text \<open>The four blocks in the order of the source: the list before deduplication.\<close>

definition collect_media :: "json \<Rightarrow> py_error + json list" where
  "collect_media info =
     (case direct_link info [] of Inl e \<Rightarrow> Inl e
      | Inr acc1 \<Rightarrow>
     (case preview_images info acc1 of Inl e \<Rightarrow> Inl e
      | Inr acc2 \<Rightarrow>
     (case gallery_items info acc2 of Inl e \<Rightarrow> Inl e
      | Inr acc3 \<Rightarrow> hosted_video info acc3)))"

text \<open>The deduplication loop with its \<^verbatim>\<open>seen\<close> set.\<close>

fun dedup_loop :: "json list \<Rightarrow> json set \<Rightarrow> json list \<Rightarrow> py_error + json list" where
  "dedup_loop [] seen deduped = Inr deduped"
| "dedup_loop (u # us) seen deduped =
     (if \<not> hashable u then Inl TypeError
      else if set_key u \<in> seen then dedup_loop us seen deduped
      else dedup_loop us (insert (set_key u) seen) (deduped @ [u]))"

definition extract_media :: "json \<Rightarrow> py_error + media_info" where
  "extract_media info =
     (case collect_media info of Inl e \<Rightarrow> Inl e
      | Inr urls \<Rightarrow>
         (case dedup_loop urls {} [] of Inl e \<Rightarrow> Inl e
          | Inr deduped \<Rightarrow>
              Inr \<lparr>media_urls = deduped,
                   primary_media_url = (case deduped of [] \<Rightarrow> None | u # us \<Rightarrow> Some u)\<rparr>))"

section \<open>The transport\<close>

text \<open>
  \<^verbatim>\<open>Reddit._get\<close> sends one GET request and returns the parsed body. The service is a
  parameter: a function from the requests sent so far and the request being sent to
  what comes back, so that every deterministic run of a service is covered. The list
  of requests sent so far is the only state threaded through the client; the waiting
  between two requests (\<^verbatim>\<open>time.sleep\<close>) changes no value and is left out.
\<close>

record request =
  path :: string
  params :: "(string \<times> json) list"

text \<open>What \<^verbatim>\<open>session.get\<close> gives: no response at all (it raises), or a response with its
  \<^verbatim>\<open>ok\<close> flag and its body, \<open>None\<close> when the body is not JSON.\<close>

datatype response = NoResponse | Response bool "json option"

type_synonym server = "request list \<Rightarrow> request \<Rightarrow> response"

definition reddit_get ::
  "server \<Rightarrow> string \<Rightarrow> (string \<times> json) list \<Rightarrow> request list \<Rightarrow> (py_error + json) \<times> request list"
where
  "reddit_get srv p ps hist =
     (let rq = \<lparr>path = p, params = ps\<rparr> in
      case srv hist rq of
        NoResponse \<Rightarrow> (Inl RequestException, hist @ [rq])
      | Response ok body \<Rightarrow>
          if \<not> ok then (Inl RedditHTTPError, hist @ [rq])
          else (case body of
                  None \<Rightarrow> (Inl JSONDecodeError, hist @ [rq])
                | Some j \<Rightarrow> (Inr j, hist @ [rq])))"

text \<open>How a call that may loop or recurse without bound ends, observed with a bound:
  it returns, it raises, or the bound is reached first.\<close>

datatype 'a outcome = Done 'a | Raised py_error | OutOfFuel

text \<open>The two library calls whose results are copied into records and request
  parameters but never inspected: \<^verbatim>\<open>_format_date\<close> (the calendar date of a timestamp,
  through \<^verbatim>\<open>datetime\<close>) and \<^verbatim>\<open>str\<close> as used by an f-string.\<close>

record platform =
  format_date :: "json \<Rightarrow> json"
  str_of :: "json \<Rightarrow> string"

text \<open>\<^verbatim>\<open>x.get(k, dflt)\<close> at a place where \<open>x\<close> has already been read as a dict.\<close>

definition field :: "json \<Rightarrow> string \<Rightarrow> json \<Rightarrow> json" where
  "field x k dflt = (case dict_get x k dflt of Inl e \<Rightarrow> dflt | Inr v \<Rightarrow> v)"

section \<open>More-fetcher\<close>

definition fetch_more_children ::
  "server \<Rightarrow> json \<Rightarrow> json \<Rightarrow> request list \<Rightarrow> (py_error + json) \<times> request list"
where
  "fetch_more_children srv link_id child_ids hist =
     (if \<not> truthy child_ids then (Inr (JArr []), hist)
      else
        (case comma_join child_ids of Inl e \<Rightarrow> (Inl e, hist)
         | Inr joined \<Rightarrow>
            (case reddit_get srv ''/api/morechildren.json''
                    [(''api_type'', JStr ''json''), (''link_id'', link_id),
                     (''children'', JStr joined), (''limit_children'', JBool False),
                     (''sort'', JStr ''confidence'')] hist of
               (Inl e, hist') \<Rightarrow> (Inl e, hist')
             | (Inr data, hist') \<Rightarrow>
                 (case dict_get data ''json'' (JObj []) of Inl e \<Rightarrow> (Inl e, hist')
                  | Inr j \<Rightarrow>
                 (case dict_get j ''data'' (JObj []) of Inl e \<Rightarrow> (Inl e, hist')
                  | Inr d \<Rightarrow>
                 (case dict_get d ''things'' (JArr []) of Inl e \<Rightarrow> (Inl e, hist')
                  | Inr things \<Rightarrow> (Inr things, hist')))))))"

section \<open>Comment tree flattener\<close>

record comment_record =
  c_id :: json
  c_author :: json
  c_body :: json
  c_created_utc :: json
  c_created_date :: json
  c_ups :: json
  c_downs :: json
  c_depth :: int
  c_parent_fullname :: json
  c_parent_id :: "string option"
  c_in_reply_to :: "string option"
  c_is_top_level :: bool

text \<open>The two values computed from \<^verbatim>\<open>parent_fullname\<close>: \<^verbatim>\<open>parent_comment_id\<close> and
  \<^verbatim>\<open>is_top_level\<close>.\<close>

definition parent_linkage :: "json \<Rightarrow> py_error + string option \<times> bool" where
  "parent_linkage parent_fullname =
     (if truthy parent_fullname then
        (case parent_fullname of
           JStr s \<Rightarrow>
             if prefix ''t1_'' s then Inr (Some (drop 3 s), False)
             else if prefix ''t3_'' s then Inr (None, True)
             else Inr (None, False)
         | _ \<Rightarrow> Inl AttributeError)
      else Inr (None, False))"

definition comment_of :: "platform \<Rightarrow> json \<Rightarrow> int \<Rightarrow> py_error + comment_record" where
  "comment_of lib data depth_inner =
     (case dict_get data ''parent_id'' JNull of Inl e \<Rightarrow> Inl e
      | Inr parent_fullname \<Rightarrow>
     (case parent_linkage parent_fullname of Inl e \<Rightarrow> Inl e
      | Inr (parent_comment_id, is_top_level) \<Rightarrow>
     (case subscript data ''id'' of Inl e \<Rightarrow> Inl e
      | Inr i \<Rightarrow>
          Inr \<lparr>c_id = i,
               c_author = py_or (field data ''author'' JNull) JNull,
               c_body = field data ''body'' (JStr []),
               c_created_utc = field data ''created_utc'' (JNum 0),
               c_created_date = format_date lib (field data ''created_utc'' (JNum 0)),
               c_ups = field data ''ups'' JNull,
               c_downs = field data ''downs'' JNull,
               c_depth = depth_inner,
               c_parent_fullname = parent_fullname,
               c_parent_id = parent_comment_id,
               c_in_reply_to = parent_comment_id,
               c_is_top_level = is_top_level\<rparr>)))"

text \<open>\<^verbatim>\<open>replies = data.get("replies")\<close>: the value to recurse into,
  \<^verbatim>\<open>replies["data"]["children"]\<close>, when \<^verbatim>\<open>replies\<close> is a dict with a true
  \<^verbatim>\<open>"data"\<close>.\<close>

definition reply_children :: "json \<Rightarrow> py_error + json option" where
  "reply_children data =
     (case dict_get data ''replies'' JNull of Inl e \<Rightarrow> Inl e
      | Inr replies \<Rightarrow>
         if is_dict replies \<and> truthy (field replies ''data'' JNull) then
           (case subscript replies ''data'' of Inl e \<Rightarrow> Inl e
            | Inr d \<Rightarrow>
               (case subscript d ''children'' of Inl e \<Rightarrow> Inl e
                | Inr ch \<Rightarrow> Inr (Some ch)))
         else Inr None)"

text \<open>The variables the closure \<^verbatim>\<open>walk\<close> updates, and the requests sent.\<close>

record walk_state =
  comments :: "comment_record list"
  more_used :: int
  sent :: "request list"

text \<open>\<^verbatim>\<open>more_limit is not None and more_used >= more_limit\<close>\<close>

definition budget_spent :: "int option \<Rightarrow> int \<Rightarrow> bool" where
  "budget_spent more_limit used = (case more_limit of None \<Rightarrow> False | Some k \<Rightarrow> used \<ge> k)"

text \<open>
  \<^verbatim>\<open>walk(children_inner, depth_inner)\<close>, on the items of \<^verbatim>\<open>children_inner\<close>: \<open>walk\<close> is
  the \<^verbatim>\<open>for\<close> loop and \<open>visit\<close> is its body for one \<^verbatim>\<open>child\<close>, which ends the iteration
  normally (also by \<^verbatim>\<open>continue\<close>) or raises. A call of \<^verbatim>\<open>walk\<close> from inside the body takes
  one unit of fuel: fuel bounds the nesting of calls, which the service can make as
  deep as it likes by answering every expansion with another placeholder.
\<close>

fun walk ::
  "nat \<Rightarrow> server \<Rightarrow> platform \<Rightarrow> json \<Rightarrow> int option \<Rightarrow> json list \<Rightarrow> int \<Rightarrow> walk_state
     \<Rightarrow> unit outcome \<times> walk_state"
and visit ::
  "nat \<Rightarrow> server \<Rightarrow> platform \<Rightarrow> json \<Rightarrow> int option \<Rightarrow> json \<Rightarrow> int \<Rightarrow> walk_state
     \<Rightarrow> unit outcome \<times> walk_state"
where
  "walk fuel srv lib link_id more_limit [] depth_inner st = (Done (), st)"
| "walk fuel srv lib link_id more_limit (child # rest) depth_inner st =
     (case visit fuel srv lib link_id more_limit child depth_inner st of
        (Done u, st1) \<Rightarrow> walk fuel srv lib link_id more_limit rest depth_inner st1
      | (Raised e, st1) \<Rightarrow> (Raised e, st1)
      | (OutOfFuel, st1) \<Rightarrow> (OutOfFuel, st1))"
| "visit fuel srv lib link_id more_limit child depth_inner st =
     (case dict_get child ''kind'' JNull of Inl e \<Rightarrow> (Raised e, st)
      | Inr kind \<Rightarrow>
     (case dict_get child ''data'' (JObj []) of Inl e \<Rightarrow> (Raised e, st)
      | Inr data \<Rightarrow>
        if kind = JStr ''t1'' then
          (case comment_of lib data depth_inner of Inl e \<Rightarrow> (Raised e, st)
           | Inr c \<Rightarrow>
              (let st1 = st\<lparr>comments := comments st @ [c]\<rparr> in
               case reply_children data of Inl e \<Rightarrow> (Raised e, st1)
               | Inr None \<Rightarrow> (Done (), st1)
               | Inr (Some replies) \<Rightarrow>
                  (case fuel of 0 \<Rightarrow> (OutOfFuel, st1)
                   | Suc fuel' \<Rightarrow>
                      (case iter_items replies of Inl e \<Rightarrow> (Raised e, st1)
                       | Inr items \<Rightarrow>
                           walk fuel' srv lib link_id more_limit items (depth_inner + 1) st1))))
        else if kind = JStr ''more'' then
          if budget_spent more_limit (more_used st) then (Done (), st)
          else
            (case dict_get data ''children'' JNull of Inl e \<Rightarrow> (Raised e, st)
             | Inr ch \<Rightarrow>
                (let child_ids = py_or ch (JArr []) in
                 if \<not> truthy child_ids then (Done (), st)
                 else
                   (let st1 = st\<lparr>more_used := more_used st + 1\<rparr> in
                    case fetch_more_children srv link_id child_ids (sent st1) of
                      (Inl e, hist) \<Rightarrow> (Raised e, st1\<lparr>sent := hist\<rparr>)
                    | (Inr more_things, hist) \<Rightarrow>
                       (let st2 = st1\<lparr>sent := hist\<rparr> in
                        if truthy more_things then
                          (case fuel of 0 \<Rightarrow> (OutOfFuel, st2)
                           | Suc fuel' \<Rightarrow>
                              (case iter_items more_things of Inl e \<Rightarrow> (Raised e, st2)
                               | Inr items \<Rightarrow>
                                   walk fuel' srv lib link_id more_limit items depth_inner st2))
                        else (Done (), st2)))))
        else (Done (), st)))"

definition flatten_comments ::
  "nat \<Rightarrow> server \<Rightarrow> platform \<Rightarrow> json \<Rightarrow> json \<Rightarrow> int \<Rightarrow> int option \<Rightarrow> request list
     \<Rightarrow> comment_record list outcome \<times> request list"
where
  "flatten_comments fuel srv lib children link_id depth more_limit hist =
     (case iter_items children of Inl e \<Rightarrow> (Raised e, hist)
      | Inr items \<Rightarrow>
         (case walk fuel srv lib link_id more_limit items depth
                 \<lparr>comments = [], more_used = 0, sent = hist\<rparr> of
            (Done u, st) \<Rightarrow> (Done (comments st), sent st)
          | (Raised e, st) \<Rightarrow> (Raised e, sent st)
          | (OutOfFuel, st) \<Rightarrow> (OutOfFuel, sent st)))"

section \<open>Record normalizer and the \<^verbatim>\<open>full\<close> flag\<close>

text \<open>\<^verbatim>\<open>if full is None: full = self.return_full\<close>\<close>

definition resolve_full :: "bool option \<Rightarrow> bool \<Rightarrow> bool" where
  "resolve_full full return_full = (case full of None \<Rightarrow> return_full | Some b \<Rightarrow> b)"

record subreddit_record =
  sr_id :: json
  sr_name :: json
  sr_title :: json
  sr_subscribers :: json
  sr_public_description :: json
  sr_url :: json
  sr_raw :: "json option"

definition subreddit_of :: "bool \<Rightarrow> json \<Rightarrow> py_error + subreddit_record" where
  "subreddit_of full child =
     (case subscript child ''data'' of Inl e \<Rightarrow> Inl e
      | Inr info \<Rightarrow>
     (case subscript info ''id'' of Inl e \<Rightarrow> Inl e
      | Inr i \<Rightarrow>
     (case subscript info ''display_name'' of Inl e \<Rightarrow> Inl e
      | Inr n \<Rightarrow>
          Inr \<lparr>sr_id = i,
               sr_name = n,
               sr_title = field info ''title'' JNull,
               sr_subscribers = field info ''subscribers'' JNull,
               sr_public_description = field info ''public_description'' JNull,
               sr_url = field info ''url'' JNull,
               sr_raw = (if full then Some info else None)\<rparr>)))"

text \<open>The keys that the listing and the submission fetch both compute for a submission.\<close>

record submission_fields =
  s_id :: json
  s_title :: json
  s_selftext :: json
  s_permalink :: json
  s_url :: json
  s_created_utc :: json
  s_created_date :: json
  s_author :: json
  s_score :: json
  s_ups :: json
  s_upvote_ratio :: json
  s_num_comments :: json
  s_thumbnail :: json
  s_is_video :: json
  s_media :: json
  s_preview :: json
  s_gallery_data :: json
  s_media_metadata :: json
  s_media_urls :: "json list"
  s_primary_media_url :: "json option"

definition submission_fields_of :: "platform \<Rightarrow> json \<Rightarrow> py_error + submission_fields" where
  "submission_fields_of lib info =
     (case extract_media info of Inl e \<Rightarrow> Inl e
      | Inr mi \<Rightarrow>
     (case subscript info ''id'' of Inl e \<Rightarrow> Inl e
      | Inr i \<Rightarrow>
          Inr \<lparr>s_id = i,
               s_title = field info ''title'' (JStr []),
               s_selftext = field info ''selftext'' (JStr []),
               s_permalink = field info ''permalink'' (JStr []),
               s_url = field info ''url'' (JStr []),
               s_created_utc = field info ''created_utc'' (JNum 0),
               s_created_date = format_date lib (field info ''created_utc'' (JNum 0)),
               s_author = py_or (field info ''author'' JNull) JNull,
               s_score = field info ''score'' JNull,
               s_ups = field info ''ups'' JNull,
               s_upvote_ratio = field info ''upvote_ratio'' JNull,
               s_num_comments = field info ''num_comments'' JNull,
               s_thumbnail = field info ''thumbnail'' JNull,
               s_is_video = field info ''is_video'' JNull,
               s_media = field info ''media'' JNull,
               s_preview = field info ''preview'' JNull,
               s_gallery_data = field info ''gallery_data'' JNull,
               s_media_metadata = field info ''media_metadata'' JNull,
               s_media_urls = media_urls mi,
               s_primary_media_url = primary_media_url mi\<rparr>))"

text \<open>What a listing yields: the computed keys, and \<^verbatim>\<open>"raw"\<close> when it is attached.\<close>

record listing_item =
  item_fields :: submission_fields
  raw :: "json option"

text \<open>What the submission fetch returns: the computed keys, \<^verbatim>\<open>"comments"\<close>, and the three
  raw keys when they are attached.\<close>

record submission_result =
  sub_fields :: submission_fields
  sub_comments :: "comment_record list"
  raw_response :: "json option"
  raw_link :: "json option"
  raw_comments_listing :: "json option"

section \<open>Listing paginator\<close>

text \<open>How the \<^verbatim>\<open>for\<close> loop over one page ends: it runs to the end of the page (with the
  budget that remains), it executes \<^verbatim>\<open>return\<close>, or it raises.\<close>

datatype page_end = Continue "int option" | Returned | Failed py_error

text \<open>\<^verbatim>\<open>min(remaining, 100) if remaining is not None else 100\<close>\<close>

definition page_size :: "int option \<Rightarrow> int" where
  "page_size remaining = (case remaining of None \<Rightarrow> 100 | Some k \<Rightarrow> min k 100)"

text \<open>\<^verbatim>\<open>data["data"]["children"]\<close> and \<^verbatim>\<open>data["data"].get("after")\<close>\<close>

definition page_children :: "json \<Rightarrow> py_error + json" where
  "page_children data =
     (case subscript data ''data'' of Inl e \<Rightarrow> Inl e | Inr d \<Rightarrow> subscript d ''children'')"

definition page_after :: "json \<Rightarrow> py_error + json" where
  "page_after data =
     (case subscript data ''data'' of Inl e \<Rightarrow> Inl e | Inr d \<Rightarrow> dict_get d ''after'' JNull)"

subsection \<open>Subreddit search\<close>

fun search_page ::
  "bool \<Rightarrow> json list \<Rightarrow> int option \<Rightarrow> subreddit_record list \<Rightarrow> page_end \<times> subreddit_record list"
where
  "search_page full [] remaining results = (Continue remaining, results)"
| "search_page full (child # rest) remaining results =
     (case subreddit_of full child of Inl e \<Rightarrow> (Failed e, results)
      | Inr sub_dict \<Rightarrow>
         (case remaining of
            None \<Rightarrow> search_page full rest None (results @ [sub_dict])
          | Some k \<Rightarrow>
              if k - 1 \<le> 0 then (Returned, results @ [sub_dict])
              else search_page full rest (Some (k - 1)) (results @ [sub_dict])))"

text \<open>The \<^verbatim>\<open>while True\<close> loop; one unit of fuel per page.\<close>

fun search_loop ::
  "nat \<Rightarrow> server \<Rightarrow> bool \<Rightarrow> string \<Rightarrow> json \<Rightarrow> int option \<Rightarrow> subreddit_record list
     \<Rightarrow> request list \<Rightarrow> subreddit_record list outcome \<times> request list"
where
  "search_loop 0 srv full query after remaining results hist = (OutOfFuel, hist)"
| "search_loop (Suc fuel) srv full query after remaining results hist =
     (case reddit_get srv ''/subreddits/search.json''
             ([(''q'', JStr query), (''limit'', JNum (of_int (page_size remaining)))]
              @ (if truthy after then [(''after'', after)] else [])) hist of
        (Inl e, hist') \<Rightarrow> (Raised e, hist')
      | (Inr data, hist') \<Rightarrow>
     (case page_children data of Inl e \<Rightarrow> (Raised e, hist')
      | Inr children \<Rightarrow>
     (case iter_items children of Inl e \<Rightarrow> (Raised e, hist')
      | Inr items \<Rightarrow>
     (case search_page full items remaining results of
        (Failed e, results') \<Rightarrow> (Raised e, hist')
      | (Returned, results') \<Rightarrow> (Done results', hist')
      | (Continue remaining', results') \<Rightarrow>
          (case page_after data of Inl e \<Rightarrow> (Raised e, hist')
           | Inr after' \<Rightarrow>
               if \<not> truthy after' \<or> \<not> truthy children then (Done results', hist')
               else search_loop fuel srv full query after' remaining' results' hist')))))"

definition search_subreddits ::
  "nat \<Rightarrow> server \<Rightarrow> bool \<Rightarrow> string \<Rightarrow> int option \<Rightarrow> bool option \<Rightarrow> request list
     \<Rightarrow> subreddit_record list outcome \<times> request list"
where
  "search_subreddits fuel srv return_full query limit full hist =
     search_loop fuel srv (resolve_full full return_full) query JNull limit [] hist"

subsection \<open>Subreddit listings\<close>

text \<open>The generator \<^verbatim>\<open>Subreddit._listing\<close>, run until it ends: what it has yielded, in
  order, and how it ended. What is yielded before an exception has been handed to the
  consumer and stays yielded.\<close>

fun listing_page ::
  "platform \<Rightarrow> bool \<Rightarrow> json list \<Rightarrow> int option \<Rightarrow> listing_item list \<Rightarrow> page_end \<times> listing_item list"
where
  "listing_page lib full [] remaining yielded = (Continue remaining, yielded)"
| "listing_page lib full (child # rest) remaining yielded =
     (case dict_get child ''kind'' JNull of Inl e \<Rightarrow> (Failed e, yielded)
      | Inr kind \<Rightarrow>
         if kind \<noteq> JStr ''t3'' then listing_page lib full rest remaining yielded
         else
           (case subscript child ''data'' of Inl e \<Rightarrow> (Failed e, yielded)
            | Inr info \<Rightarrow>
           (case submission_fields_of lib info of Inl e \<Rightarrow> (Failed e, yielded)
            | Inr fs \<Rightarrow>
               (let submission_dict = \<lparr>item_fields = fs, raw = (if full then Some info else None)\<rparr>
                in case remaining of
                     None \<Rightarrow> listing_page lib full rest None (yielded @ [submission_dict])
                   | Some k \<Rightarrow>
                       if k - 1 \<le> 0 then (Returned, yielded @ [submission_dict])
                       else listing_page lib full rest (Some (k - 1))
                              (yielded @ [submission_dict])))))"

definition listing_params :: "string \<Rightarrow> string option \<Rightarrow> json \<Rightarrow> int option \<Rightarrow> (string \<times> json) list" where
  "listing_params sort_name time_filter after remaining =
     [(''limit'', JNum (of_int (page_size remaining)))]
     @ (if truthy after then [(''after'', after)] else [])
     @ (case time_filter of
          None \<Rightarrow> []
        | Some t \<Rightarrow> if t \<noteq> [] \<and> sort_name = ''top'' then [(''t'', JStr t)] else [])"

fun listing_loop ::
  "nat \<Rightarrow> server \<Rightarrow> platform \<Rightarrow> bool \<Rightarrow> string \<Rightarrow> string \<Rightarrow> string option \<Rightarrow> json \<Rightarrow> int option
     \<Rightarrow> listing_item list \<Rightarrow> request list \<Rightarrow> unit outcome \<times> listing_item list \<times> request list"
where
  "listing_loop 0 srv lib full p sort_name time_filter after remaining yielded hist =
     (OutOfFuel, yielded, hist)"
| "listing_loop (Suc fuel) srv lib full p sort_name time_filter after remaining yielded hist =
     (case reddit_get srv p (listing_params sort_name time_filter after remaining) hist of
        (Inl e, hist') \<Rightarrow> (Raised e, yielded, hist')
      | (Inr data, hist') \<Rightarrow>
     (case page_children data of Inl e \<Rightarrow> (Raised e, yielded, hist')
      | Inr children \<Rightarrow>
     (case iter_items children of Inl e \<Rightarrow> (Raised e, yielded, hist')
      | Inr items \<Rightarrow>
     (case listing_page lib full items remaining yielded of
        (Failed e, yielded') \<Rightarrow> (Raised e, yielded', hist')
      | (Returned, yielded') \<Rightarrow> (Done (), yielded', hist')
      | (Continue remaining', yielded') \<Rightarrow>
          (case page_after data of Inl e \<Rightarrow> (Raised e, yielded', hist')
           | Inr after' \<Rightarrow>
               if \<not> truthy after' \<or> \<not> truthy children then (Done (), yielded', hist')
               else listing_loop fuel srv lib full p sort_name time_filter after' remaining'
                      yielded' hist')))))"

definition listing ::
  "nat \<Rightarrow> server \<Rightarrow> platform \<Rightarrow> bool \<Rightarrow> string \<Rightarrow> string \<Rightarrow> int option \<Rightarrow> string option
     \<Rightarrow> bool option \<Rightarrow> request list \<Rightarrow> unit outcome \<times> listing_item list \<times> request list"
where
  "listing fuel srv lib return_full name sort_name limit time_filter full hist =
     listing_loop fuel srv lib (resolve_full full return_full)
       (''/r/'' @ name @ ''/'' @ sort_name @ ''.json'') sort_name time_filter JNull limit [] hist"

definition listing_hot where
  "listing_hot fuel srv lib return_full name limit full hist =
     listing fuel srv lib return_full name ''hot'' limit None full hist"

definition listing_new where
  "listing_new fuel srv lib return_full name limit full hist =
     listing fuel srv lib return_full name ''new'' limit None full hist"

definition listing_top where
  "listing_top fuel srv lib return_full name limit time_filter full hist =
     listing fuel srv lib return_full name ''top'' limit (Some time_filter) full hist"

section \<open>Submission fetch\<close>

text \<open>\<^verbatim>\<open>raw[0]["data"]["children"][0]["data"]\<close> and \<^verbatim>\<open>raw[1]["data"]["children"]\<close>\<close>

definition link_info_of :: "json \<Rightarrow> py_error + json" where
  "link_info_of raw_json =
     (case item_at raw_json 0 of Inl e \<Rightarrow> Inl e
      | Inr l \<Rightarrow>
     (case subscript l ''data'' of Inl e \<Rightarrow> Inl e
      | Inr d \<Rightarrow>
     (case subscript d ''children'' of Inl e \<Rightarrow> Inl e
      | Inr ch \<Rightarrow>
     (case item_at ch 0 of Inl e \<Rightarrow> Inl e
      | Inr c \<Rightarrow> subscript c ''data''))))"

definition comments_listing_of :: "json \<Rightarrow> py_error + json" where
  "comments_listing_of raw_json =
     (case item_at raw_json 1 of Inl e \<Rightarrow> Inl e
      | Inr l \<Rightarrow>
     (case subscript l ''data'' of Inl e \<Rightarrow> Inl e
      | Inr d \<Rightarrow> subscript d ''children''))"

text \<open>\<^verbatim>\<open>link_info.get("name") or f"t3_{link_info['id']}"\<close>\<close>

definition link_fullname_of :: "platform \<Rightarrow> json \<Rightarrow> json \<Rightarrow> json" where
  "link_fullname_of lib link_info i =
     py_or (field link_info ''name'' JNull)
       (JStr (''t3_'' @ (case i of JStr s \<Rightarrow> s | _ \<Rightarrow> str_of lib i)))"

definition submission ::
  "nat \<Rightarrow> server \<Rightarrow> platform \<Rightarrow> bool \<Rightarrow> string \<Rightarrow> int option \<Rightarrow> bool option \<Rightarrow> request list
     \<Rightarrow> submission_result outcome \<times> request list"
where
  "submission fuel srv lib return_full ident more_limit full hist =
     (case reddit_get srv (''/comments/'' @ ident @ ''.json'') [(''limit'', JNum 500)] hist of
        (Inl e, hist1) \<Rightarrow> (Raised e, hist1)
      | (Inr raw_json, hist1) \<Rightarrow>
     (case link_info_of raw_json of Inl e \<Rightarrow> (Raised e, hist1)
      | Inr link_info \<Rightarrow>
     (case comments_listing_of raw_json of Inl e \<Rightarrow> (Raised e, hist1)
      | Inr comments_listing \<Rightarrow>
     (case submission_fields_of lib link_info of Inl e \<Rightarrow> (Raised e, hist1)
      | Inr fs \<Rightarrow>
     (case flatten_comments fuel srv lib comments_listing
             (link_fullname_of lib link_info (s_id fs)) 0 more_limit hist1 of
        (Raised e, hist2) \<Rightarrow> (Raised e, hist2)
      | (OutOfFuel, hist2) \<Rightarrow> (OutOfFuel, hist2)
      | (Done comments_flat, hist2) \<Rightarrow>
          (Done \<lparr>sub_fields = fs,
                 sub_comments = comments_flat,
                 raw_response = (if resolve_full full return_full then Some raw_json else None),
                 raw_link = (if resolve_full full return_full then Some link_info else None),
                 raw_comments_listing =
                   (if resolve_full full return_full then Some comments_listing else None)\<rparr>,
           hist2))))))"

section \<open>Specification-level notions used to state the properties\<close>

subsection \<open>Media extractor\<close>

text \<open>Keeping the first occurrence of every element, in the original order.\<close>

fun first_occurrences :: "'a list \<Rightarrow> 'a list" where
  "first_occurrences [] = []"
| "first_occurrences (x # xs) = x # first_occurrences (filter (\<lambda>y. y \<noteq> x) xs)"

fun is_str :: "json \<Rightarrow> bool" where
  "is_str (JStr s) = True"
| "is_str _ = False"

text \<open>The image entries of the preview structure; none when there is no preview.\<close>

definition preview_entries :: "json \<Rightarrow> json list" where
  "preview_entries info =
     (case dict_get info ''preview'' JNull of
        Inr (JObj kv) \<Rightarrow>
          (case iter_items (py_or (field (JObj kv) ''images'' JNull) (JArr [])) of
             Inr imgs \<Rightarrow> imgs | Inl e \<Rightarrow> [])
      | _ \<Rightarrow> [])"

text \<open>
  The candidate order read kind by kind, as in the sentence
  ``direct link, preview source images, preview resolutions, gallery items,
  hosted-video fallback'': the source URLs of all images, and after them the
  resolution URLs of all images.
\<close>

fun sources_loop :: "json list \<Rightarrow> json list \<Rightarrow> py_error + json list" where
  "sources_loop [] acc = Inr acc"
| "sources_loop (img # imgs) acc =
     (case image_source img acc of Inl e \<Rightarrow> Inl e | Inr acc' \<Rightarrow> sources_loop imgs acc')"

fun all_resolutions_loop :: "json list \<Rightarrow> json list \<Rightarrow> py_error + json list" where
  "all_resolutions_loop [] acc = Inr acc"
| "all_resolutions_loop (img # imgs) acc =
     (case image_resolutions img acc of Inl e \<Rightarrow> Inl e
      | Inr acc' \<Rightarrow> all_resolutions_loop imgs acc')"

definition kind_order_urls :: "json \<Rightarrow> py_error + json list" where
  "kind_order_urls info =
     (case direct_link info [] of Inl e \<Rightarrow> Inl e
      | Inr acc1 \<Rightarrow>
     (case sources_loop (preview_entries info) acc1 of Inl e \<Rightarrow> Inl e
      | Inr acc2 \<Rightarrow>
     (case all_resolutions_loop (preview_entries info) acc2 of Inl e \<Rightarrow> Inl e
      | Inr acc3 \<Rightarrow>
     (case gallery_items info acc3 of Inl e \<Rightarrow> Inl e
      | Inr acc4 \<Rightarrow>
     (case hosted_video info acc4 of Inl e \<Rightarrow> Inl e
      | Inr acc5 \<Rightarrow> Inr (first_occurrences acc5))))))"

text \<open>A block of the extractor appends to the list it is given, and what it appends
  satisfies \<open>P\<close>.\<close>

definition appender :: "(json \<Rightarrow> bool) \<Rightarrow> (json list \<Rightarrow> py_error + json list) \<Rightarrow> bool" where
  "appender P f =
     ((\<forall>acc. f acc = (case f [] of Inl e \<Rightarrow> Inl e | Inr ys \<Rightarrow> Inr (acc @ ys)))
      \<and> (\<forall>ys. f [] = Inr ys \<longrightarrow> list_all P ys))"

text \<open>Sample submissions.\<close>

definition two_images :: json where
  "two_images =
     JObj [(''url'', JStr ''https://example.com/post''),
           (''preview'', JObj [(''images'',
              JArr [JObj [(''source'', JObj [(''url'', JStr ''a'')]),
                          (''resolutions'', JArr [JObj [(''url'', JStr ''b'')]])],
                    JObj [(''source'', JObj [(''url'', JStr ''c'')]),
                          (''resolutions'', JArr [JObj [(''url'', JStr ''d'')]])]])])]"

definition repeated_urls :: json where
  "repeated_urls =
     JObj [(''url'', JStr ''https://i.redd.it/a.png''),
           (''preview'', JObj [(''images'',
              JArr [JObj [(''source'', JObj [(''url'', JStr ''https://i.redd.it/a.png'')]),
                          (''resolutions'',
                             JArr [JObj [(''url'', JStr ''https://x/r?w=1&amp;h=2'')],
                                   JObj [(''url'', JStr ''https://x/r?w=1&amp;h=2'')]])]])]),
           (''media'', JObj [(''reddit_video'',
              JObj [(''fallback_url'', JStr ''https://v.redd.it/f'')])])]"

definition png_link :: json where
  "png_link = JObj [(''id'', JStr ''p1''), (''url'', JStr ''https://i.redd.it/Cat.PNG'')]"

definition png_record :: submission_fields where
  "png_record =
     \<lparr>s_id = JStr ''p1'', s_title = JStr [], s_selftext = JStr [], s_permalink = JStr [],
      s_url = JStr ''https://i.redd.it/Cat.PNG'', s_created_utc = JNum 0,
      s_created_date = JNull, s_author = JNull, s_score = JNull, s_ups = JNull,
      s_upvote_ratio = JNull, s_num_comments = JNull, s_thumbnail = JNull,
      s_is_video = JNull, s_media = JNull, s_preview = JNull, s_gallery_data = JNull,
      s_media_metadata = JNull, s_media_urls = [JStr ''https://i.redd.it/Cat.PNG''],
      s_primary_media_url = Some (JStr ''https://i.redd.it/Cat.PNG'')\<rparr>"

subsection \<open>Transport failures\<close>

text \<open>A response with a non-success status.\<close>

definition http_failed :: "response \<Rightarrow> bool" where
  "http_failed r = (case r of NoResponse \<Rightarrow> False | Response ok body \<Rightarrow> \<not> ok)"

text \<open>None of the requests \<open>rqs\<close>, sent one after the other after \<open>hist\<close>, was answered
  with a non-success status.\<close>

fun no_http_failure :: "server \<Rightarrow> request list \<Rightarrow> request list \<Rightarrow> bool" where
  "no_http_failure srv hist [] = True"
| "no_http_failure srv hist (rq # rqs) =
     (\<not> http_failed (srv hist rq) \<and> no_http_failure srv (hist @ [rq]) rqs)"

text \<open>
  The requests \<open>rqs\<close> of a call that either raised the transport failure or did not:
  if it did, the last request was answered with a non-success status and none before
  it; if it did not, none was.
\<close>

definition fails_fast :: "server \<Rightarrow> request list \<Rightarrow> request list \<Rightarrow> bool \<Rightarrow> bool" where
  "fails_fast srv hist rqs raised =
     (if raised then rqs \<noteq> [] \<and> no_http_failure srv hist (butlast rqs)
                     \<and> http_failed (srv (hist @ butlast rqs) (last rqs))
      else no_http_failure srv hist rqs)"

text \<open>A call started after \<open>hist\<close> and ended with the requests \<open>hist'\<close> sent.\<close>

definition sends :: "server \<Rightarrow> request list \<Rightarrow> request list \<Rightarrow> bool \<Rightarrow> bool" where
  "sends srv hist hist' raised =
     (take (length hist) hist' = hist \<and> fails_fast srv hist (drop (length hist) hist') raised)"

text \<open>The exceptions raised by the client's own reading of the data.\<close>

definition local_error :: "py_error \<Rightarrow> bool" where
  "local_error e = (e = AttributeError \<or> e = TypeError \<or> e = KeyError \<or> e = IndexError)"

subsection \<open>Expansion budget\<close>

text \<open>
  The account of a walk from \<open>st\<close> to \<open>st'\<close>: the counter only grows, it stays within a
  finite budget once below it, every request sent is an expansion request, no more
  requests are sent than units are used, and exactly as many when the walk does not
  raise.
\<close>

definition budget_account :: "int option \<Rightarrow> walk_state \<Rightarrow> unit outcome \<Rightarrow> walk_state \<Rightarrow> bool" where
  "budget_account more_limit st res st' =
     (more_used st \<le> more_used st'
      \<and> (case more_limit of None \<Rightarrow> True | Some k \<Rightarrow> more_used st' \<le> max (more_used st) k)
      \<and> take (length (sent st)) (sent st') = sent st
      \<and> list_all (\<lambda>rq. path rq = ''/api/morechildren.json'') (drop (length (sent st)) (sent st'))
      \<and> int (length (sent st')) - int (length (sent st)) \<le> more_used st' - more_used st
      \<and> ((case res of Raised e \<Rightarrow> False | _ \<Rightarrow> True) \<longrightarrow>
           int (length (sent st')) - int (length (sent st)) = more_used st' - more_used st))"

subsection \<open>Depth as the number of comment-level ancestors\<close>

text \<open>
  The same walk, carrying instead of a depth the chain of comments that enclose the
  nodes being walked (their ids, innermost first): the chain grows by the comment
  whose replies are entered, and stays as it is for the nodes that the expansion of a
  placeholder reveals. Each comment is recorded with its chain.
\<close>

record path_state =
  visited :: "(comment_record \<times> json list) list"
  expansions :: int
  requests :: "request list"


definition with_depths :: "int \<Rightarrow> (comment_record \<times> json list) list \<Rightarrow> comment_record list" where
  "with_depths depth vs =
     map (\<lambda>(c, ancestors). c\<lparr>c_depth := depth + int (length ancestors)\<rparr>) vs"


definition to_state :: "int \<Rightarrow> path_state \<Rightarrow> walk_state" where
  "to_state depth pst =
     \<lparr>comments = with_depths depth (visited pst), more_used = expansions pst,
      sent = requests pst\<rparr>"


subsection \<open>Listings and the \<^verbatim>\<open>full\<close> flag\<close>

text \<open>A child tagged with the submission kind.\<close>

definition is_submission :: "json \<Rightarrow> bool" where
  "is_submission child = (dict_get child ''kind'' JNull = Inr (JStr ''t3''))"

text \<open>The record a listing yields for a child.\<close>

definition yields_for :: "platform \<Rightarrow> bool \<Rightarrow> json \<Rightarrow> listing_item \<Rightarrow> bool" where
  "yields_for lib full child item =
     (is_submission child \<and>
      (case subscript child ''data'' of Inl e \<Rightarrow> False
       | Inr info \<Rightarrow>
          (case submission_fields_of lib info of Inl e \<Rightarrow> False
           | Inr fs \<Rightarrow> item = \<lparr>item_fields = fs, raw = (if full then Some info else None)\<rparr>)))"

definition has_raw :: "subreddit_record \<Rightarrow> bool" where
  "has_raw r = (sr_raw r \<noteq> None)"

definition item_has_raw :: "listing_item \<Rightarrow> bool" where
  "item_has_raw i = (raw i \<noteq> None)"

definition without_raw :: "subreddit_record \<Rightarrow> subreddit_record" where
  "without_raw r = r\<lparr>sr_raw := None\<rparr>"

definition item_without_raw :: "listing_item \<Rightarrow> listing_item" where
  "item_without_raw i = i\<lparr>raw := None\<rparr>"

definition submission_without_raw :: "submission_result \<Rightarrow> submission_result" where
  "submission_without_raw r =
     r\<lparr>raw_response := None, raw_link := None, raw_comments_listing := None\<rparr>"

subsection \<open>Sample services and data\<close>

definition plain_lib :: platform where
  "plain_lib = \<lparr>format_date = (\<lambda>ts. JNull), str_of = (\<lambda>v. ''?'')\<rparr>"

definition reply_data :: json where
  "reply_data =
     JObj [(''id'', JStr ''c2''), (''parent_id'', JStr ''t1_xyz987''), (''body'', JStr ''hi'')]"

definition empty_placeholder :: json where
  "empty_placeholder =
     JObj [(''kind'', JStr ''more''), (''data'', JObj [(''children'', JArr [])])]"

text \<open>A thread: comment \<open>c1\<close> with the reply \<open>c2\<close> and a placeholder for two more replies,
  followed by an empty placeholder.\<close>

definition sample_comments :: json where
  "sample_comments =
     JArr [JObj [(''kind'', JStr ''t1''),
                 (''data'', JObj [(''id'', JStr ''c1''), (''parent_id'', JStr ''t3_abc''),
                    (''replies'', JObj [(''data'', JObj [(''children'',
                       JArr [JObj [(''kind'', JStr ''t1''),
                                   (''data'', JObj [(''id'', JStr ''c2''),
                                                    (''parent_id'', JStr ''t1_c1''),
                                                    (''replies'', JStr [])])],
                             JObj [(''kind'', JStr ''more''),
                                   (''data'', JObj [(''children'',
                                      JArr [JStr ''c3'', JStr ''c4''])])]])])])])],
           empty_placeholder]"

definition sample_thread :: json where
  "sample_thread =
     JArr [JObj [(''data'', JObj [(''children'',
              JArr [JObj [(''kind'', JStr ''t3''),
                          (''data'', JObj [(''id'', JStr ''abc''), (''name'', JStr ''t3_abc'')])]])])],
           JObj [(''data'', JObj [(''children'', sample_comments)])]]"

definition sample_things :: json where
  "sample_things =
     JObj [(''json'', JObj [(''data'', JObj [(''things'',
        JArr [JObj [(''kind'', JStr ''t1''),
                    (''data'', JObj [(''id'', JStr ''c3''), (''parent_id'', JStr ''t1_c1'')])]])])])]"

definition sample_search_page :: json where
  "sample_search_page =
     JObj [(''data'', JObj [(''children'',
        JArr [JObj [(''kind'', JStr ''t5''),
                    (''data'', JObj [(''id'', JStr ''s1''), (''display_name'', JStr ''cats'')])]]),
        (''after'', JNull)])]"

definition mixed_page :: "json list" where
  "mixed_page =
     [JObj [(''kind'', JStr ''t5''), (''data'', JObj [(''id'', JStr ''sr'')])],
      JObj [(''kind'', JStr ''t3''), (''data'', png_link)],
      JObj [(''data'', JObj [(''id'', JStr ''nokind'')])]]"

definition sample_listing_page :: json where
  "sample_listing_page =
     JObj [(''data'', JObj [(''children'', JArr mixed_page), (''after'', JNull)])]"

text \<open>A service that answers every request with the same body, one that answers the
  thread and expands its placeholder, one that refuses the expansion, and one that
  refuses everything.\<close>

definition page_server :: "json \<Rightarrow> server" where
  "page_server page hist rq = Response True (Some page)"

definition expanding_server :: server where
  "expanding_server hist rq =
     (if path rq = ''/api/morechildren.json'' then Response True (Some sample_things)
      else Response True (Some sample_thread))"

definition refusing_expansion :: server where
  "refusing_expansion hist rq =
     (if path rq = ''/api/morechildren.json'' then Response False None
      else Response True (Some sample_thread))"

definition refusing_server :: server where
  "refusing_server hist rq = Response False None"

text \<open>The records of the sample thread, and the request that expands its placeholder.\<close>

definition sample_record :: "string \<Rightarrow> string \<Rightarrow> string option \<Rightarrow> bool \<Rightarrow> int \<Rightarrow> comment_record" where
  "sample_record i parent parent_comment is_top d =
     \<lparr>c_id = JStr i, c_author = JNull, c_body = JStr [], c_created_utc = JNum 0,
      c_created_date = JNull, c_ups = JNull, c_downs = JNull, c_depth = d,
      c_parent_fullname = JStr parent, c_parent_id = parent_comment,
      c_in_reply_to = parent_comment, c_is_top_level = is_top\<rparr>"

definition expansion_request :: request where
  "expansion_request =
     \<lparr>path = ''/api/morechildren.json'',
      params = [(''api_type'', JStr ''json''), (''link_id'', JStr ''t3_abc''),
                (''children'', JStr ''c3,c4''), (''limit_children'', JBool False),
                (''sort'', JStr ''confidence'')]\<rparr>"

definition cats_record :: subreddit_record where
  "cats_record =
     \<lparr>sr_id = JStr ''s1'', sr_name = JStr ''cats'', sr_title = JNull, sr_subscribers = JNull,
      sr_public_description = JNull, sr_url = JNull, sr_raw = None\<rparr>"

section \<open>Properties of the media extractor\<close>

lemmas media_defs = extract_media_def collect_media_def direct_link_def preview_images_def
  gallery_items_def hosted_video_def image_source_def image_resolutions_def
  append_unescaped_def py_or_def has_media_ext_def media_exts_def lower_def lower_char_def
  suffix_def field_def

lemma appenderD:
  "appender P f \<Longrightarrow> f acc = (case f [] of Inl e \<Rightarrow> Inl e | Inr ys \<Rightarrow> Inr (acc @ ys))"
  unfolding appender_def by blast

lemma appender_allD: "appender P f \<Longrightarrow> f [] = Inr ys \<Longrightarrow> list_all P ys"
  unfolding appender_def by blast

lemma appenderI:
  assumes "\<And>acc. f acc = (case f [] of Inl e \<Rightarrow> Inl e | Inr ys \<Rightarrow> Inr (acc @ ys))"
    and "\<And>ys. f [] = Inr ys \<Longrightarrow> list_all P ys"
  shows "appender P f"
  unfolding appender_def using assms by blast

lemma appender_then:
  assumes f: "appender P f" and g: "appender P g"
  shows "appender P (\<lambda>acc. case f acc of Inl e \<Rightarrow> Inl e | Inr acc' \<Rightarrow> g acc')"
proof (cases "f []")
  case (Inl e)
  have "\<And>acc. f acc = Inl e" using appenderD [OF f] Inl by simp
  then show ?thesis by (simp add: appender_def)
next
  case (Inr ys)
  have facc: "\<And>acc. f acc = Inr (acc @ ys)" using appenderD [OF f] Inr by simp
  have ys: "list_all P ys" using appender_allD [OF f Inr] .
  show ?thesis
  proof (cases "g []")
    case (Inl e)
    have "\<And>acc. g acc = Inl e" using appenderD [OF g] Inl by simp
    then show ?thesis by (simp add: appender_def facc)
  next
    case r2: (Inr zs)
    have gacc: "\<And>acc. g acc = Inr (acc @ zs)" using appenderD [OF g] r2 by simp
    have zs: "list_all P zs" using appender_allD [OF g r2] .
    show ?thesis using ys zs by (simp add: appender_def facc gacc)
  qed
qed

lemma appender_id: "appender P Inr"
  by (simp add: appender_def)

lemma appender_bind:
  assumes "\<And>v. m = Inr v \<Longrightarrow> appender P (g v)"
  shows "appender P (\<lambda>acc. case m of Inl e \<Rightarrow> Inl e | Inr v \<Rightarrow> g v acc)"
proof (cases m)
  case (Inl e)
  then show ?thesis by (simp add: appender_def)
next
  case (Inr v)
  from assms [OF Inr] show ?thesis unfolding Inr by simp
qed

lemma appender_if:
  assumes "c \<Longrightarrow> appender P f" and "\<not> c \<Longrightarrow> appender P g"
  shows "appender P (\<lambda>acc. if c then f acc else g acc)"
proof (cases c)
  case True
  from assms(1) [OF True] show ?thesis unfolding if_P [OF True] by simp
next
  case False
  from assms(2) [OF False] show ?thesis unfolding if_not_P [OF False] by simp
qed

lemma appender_append_unescaped: "appender is_str (append_unescaped v)"
  by (simp add: appender_def append_unescaped_def split: json.splits)

lemma appender_resolutions_loop: "appender is_str (resolutions_loop rs)"
proof (induction rs)
  case Nil
  show ?case by (simp add: appender_def)
next
  case (Cons r rs)
  have eq: "resolutions_loop (r # rs) = (\<lambda>acc. case dict_get r ''url'' JNull of Inl e \<Rightarrow> Inl e
     | Inr u \<Rightarrow> (case append_unescaped u acc of Inl e \<Rightarrow> Inl e
          | Inr acc' \<Rightarrow> resolutions_loop rs acc'))"
    by (rule ext) simp
  show ?case
    unfolding eq by (intro appender_bind appender_then appender_append_unescaped Cons.IH)
qed

lemma appender_image_source: "appender is_str (image_source img)"
  unfolding image_source_def [abs_def]
  by (intro appender_bind appender_append_unescaped)

lemma appender_image_resolutions: "appender is_str (image_resolutions img)"
  unfolding image_resolutions_def [abs_def]
  by (intro appender_bind appender_resolutions_loop)

lemma appender_images_loop: "appender is_str (images_loop imgs)"
proof (induction imgs)
  case Nil
  show ?case by (simp add: appender_def)
next
  case (Cons img imgs)
  have eq: "images_loop (img # imgs) = (\<lambda>acc. case image_source img acc of Inl e \<Rightarrow> Inl e
     | Inr acc1 \<Rightarrow> (case image_resolutions img acc1 of Inl e \<Rightarrow> Inl e
          | Inr acc2 \<Rightarrow> images_loop imgs acc2))"
    by (rule ext) simp
  show ?case
    unfolding eq
    by (intro appender_then appender_image_source appender_image_resolutions Cons.IH)
qed

lemma appender_preview_images: "appender is_str (preview_images info)"
  unfolding preview_images_def [abs_def]
  by (intro appender_bind appender_if appender_images_loop appender_id)

lemma appender_gallery_loop: "appender is_str (gallery_loop mm items)"
proof (induction items)
  case Nil
  show ?case by (simp add: appender_def)
next
  case (Cons item items)
  have eq: "gallery_loop mm (item # items) =
    (\<lambda>acc. case dict_get item ''media_id'' JNull of Inl e \<Rightarrow> Inl e
      | Inr media_id \<Rightarrow>
     (case dict_get_value mm media_id of Inl e \<Rightarrow> Inl e
      | Inr meta \<Rightarrow>
     (case dict_get (py_or meta (JObj [])) ''s'' JNull of Inl e \<Rightarrow> Inl e
      | Inr s \<Rightarrow>
     (case dict_get (py_or s (JObj [])) ''u'' JNull of Inl e \<Rightarrow> Inl e
      | Inr src \<Rightarrow>
     (case append_unescaped src acc of Inl e \<Rightarrow> Inl e
      | Inr acc' \<Rightarrow> gallery_loop mm items acc')))))"
    by (rule ext) simp
  show ?case
    unfolding eq by (intro appender_bind appender_then appender_append_unescaped Cons.IH)
qed

lemma appender_gallery_items: "appender is_str (gallery_items info)"
  unfolding gallery_items_def [abs_def]
  by (intro appender_bind appender_if appender_gallery_loop appender_id)

lemma appender_direct_link: "appender is_str (direct_link info)"
  by (cases "dict_get info ''url'' JNull")
     (auto simp: appender_def direct_link_def split: json.splits)

lemma hosted_video_acc:
  "hosted_video info acc = (case hosted_video info [] of Inl e \<Rightarrow> Inl e | Inr ys \<Rightarrow> Inr (acc @ ys))"
  by (simp add: hosted_video_def split: sum.splits)

lemma hosted_video_short: "hosted_video info [] = Inr v \<Longrightarrow> length v \<le> 1"
  by (auto simp: hosted_video_def split: sum.splits if_splits)

lemma collect_media_parts:
  assumes "collect_media info = Inr urls"
  shows "\<exists>d p g v. direct_link info [] = Inr d \<and> preview_images info [] = Inr p
           \<and> gallery_items info [] = Inr g \<and> hosted_video info [] = Inr v
           \<and> urls = d @ p @ g @ v \<and> list_all is_str (d @ p @ g) \<and> length v \<le> 1"
proof -
  from assms obtain d a2 a3 where d: "direct_link info [] = Inr d"
    and a2: "preview_images info d = Inr a2" and a3: "gallery_items info a2 = Inr a3"
    and a4: "hosted_video info a3 = Inr urls"
    by (auto simp: collect_media_def split: sum.splits)
  from a2 appenderD [OF appender_preview_images, of info d]
  obtain p where p: "preview_images info [] = Inr p" "a2 = d @ p"
    by (auto split: sum.splits)
  from a3 appenderD [OF appender_gallery_items, of info a2]
  obtain g where g: "gallery_items info [] = Inr g" "a3 = a2 @ g"
    by (auto split: sum.splits)
  from a4 hosted_video_acc [of info a3]
  obtain v where v: "hosted_video info [] = Inr v" "urls = a3 @ v"
    by (auto split: sum.splits)
  have "list_all is_str d" "list_all is_str p" "list_all is_str g"
    using appender_allD [OF appender_direct_link d(1)]
      appender_allD [OF appender_preview_images p(1)]
      appender_allD [OF appender_gallery_items g(1)] by simp_all
  with d p g v hosted_video_short [OF v(1)] show ?thesis by simp
qed

lemma images_loop_per_image:
  assumes "images_loop imgs [] = Inr p"
  shows "\<exists>ps. list_all2 (\<lambda>img q. \<exists>s r. image_source img [] = Inr s
                   \<and> image_resolutions img [] = Inr r \<and> q = s @ r) imgs ps
           \<and> p = concat ps"
  using assms
proof (induction imgs arbitrary: p)
  case Nil
  then show ?case by simp
next
  case (Cons img imgs)
  from Cons.prems obtain s a2 where s: "image_source img [] = Inr s"
    and a2: "image_resolutions img s = Inr a2" and rest: "images_loop imgs a2 = Inr p"
    by (auto split: sum.splits)
  from a2 appenderD [OF appender_image_resolutions, of img s]
  obtain r where r: "image_resolutions img [] = Inr r" "a2 = s @ r"
    by (auto split: sum.splits)
  from rest appenderD [OF appender_images_loop, of imgs a2]
  obtain p' where p': "images_loop imgs [] = Inr p'" "p = a2 @ p'"
    by (auto split: sum.splits)
  from Cons.IH [OF p'(1)] obtain ps where
    ps: "list_all2 (\<lambda>img q. \<exists>s r. image_source img [] = Inr s
                   \<and> image_resolutions img [] = Inr r \<and> q = s @ r) imgs ps" "p' = concat ps"
    by blast
  have "list_all2 (\<lambda>img q. \<exists>s r. image_source img [] = Inr s
                   \<and> image_resolutions img [] = Inr r \<and> q = s @ r) (img # imgs) ((s @ r) # ps)"
    using s r(1) ps(1) by auto
  moreover have "p = concat ((s @ r) # ps)" using p' r ps(2) by simp
  ultimately show ?case by blast
qed

lemma preview_images_per_image:
  assumes "preview_images info [] = Inr p"
  shows "\<exists>ps. list_all2 (\<lambda>img q. \<exists>s r. image_source img [] = Inr s
                   \<and> image_resolutions img [] = Inr r \<and> q = s @ r) (preview_entries info) ps
           \<and> p = concat ps"
proof (cases "\<exists>kv. dict_get info ''preview'' JNull = Inr (JObj kv)")
  case True
  then obtain kv where kv: "dict_get info ''preview'' JNull = Inr (JObj kv)" by blast
  with assms have "images_loop (preview_entries info) [] = Inr p"
    by (auto simp: preview_images_def preview_entries_def field_def split: sum.splits)
  then show ?thesis by (rule images_loop_per_image)
next
  case False
  then have "preview_entries info = []"
    by (auto simp: preview_entries_def split: sum.splits json.splits)
  moreover from False assms have "p = []"
    by (cases "dict_get info ''preview'' JNull"; cases "projr (dict_get info ''preview'' JNull)")
       (auto simp: preview_images_def)
  ultimately show ?thesis by simp
qed

lemma set_first_occurrences: "set (first_occurrences xs) = set xs"
  by (induction xs rule: first_occurrences.induct) auto

lemma distinct_first_occurrences: "distinct (first_occurrences xs)"
  by (induction xs rule: first_occurrences.induct) (auto simp: set_first_occurrences)

lemma subseq_first_occurrences: "subseq (first_occurrences xs) xs"
proof (induction xs rule: first_occurrences.induct)
  case 1
  show ?case by simp
next
  case (2 x xs)
  have "subseq (filter (\<lambda>y. y \<noteq> x) xs) xs" by simp
  with 2 have "subseq (first_occurrences (filter (\<lambda>y. y \<noteq> x) xs)) xs"
    using subseq_order.order_trans by blast
  then show ?case by simp
qed

lemma dedup_loop_first_occurrences:
  assumes "dedup_loop us seen out = Inr ys"
    and "inj_on set_key (set us \<union> set out)"
    and "seen = set_key ` set out"
  shows "ys = out @ first_occurrences (filter (\<lambda>u. u \<notin> set out) us)"
  using assms
proof (induction us arbitrary: seen out)
  case Nil
  then show ?case by simp
next
  case (Cons u us)
  from Cons.prems(1) have h: "hashable u" by (auto split: if_splits)
  show ?case
  proof (cases "set_key u \<in> seen")
    case True
    with Cons.prems(3) obtain w where w: "w \<in> set out" "set_key u = set_key w" by auto
    with Cons.prems(2) have "u = w" by (auto simp: inj_on_def)
    with w have uin: "u \<in> set out" by simp
    from True h Cons.prems(1) have "dedup_loop us seen out = Inr ys" by simp
    moreover from Cons.prems(2) have "inj_on set_key (set us \<union> set out)"
      by (auto simp: inj_on_def)
    ultimately have "ys = out @ first_occurrences (filter (\<lambda>u. u \<notin> set out) us)"
      using Cons.IH Cons.prems(3) by blast
    with uin show ?thesis by simp
  next
    case False
    with Cons.prems(3) have unot: "u \<notin> set out" by auto
    from False h Cons.prems(1)
    have "dedup_loop us (insert (set_key u) seen) (out @ [u]) = Inr ys" by simp
    moreover from Cons.prems(2) have "inj_on set_key (set us \<union> set (out @ [u]))"
      by (auto simp: inj_on_def)
    moreover from Cons.prems(3) have "insert (set_key u) seen = set_key ` set (out @ [u])"
      by auto
    ultimately have "ys = (out @ [u]) @ first_occurrences (filter (\<lambda>v. v \<notin> set (out @ [u])) us)"
      using Cons.IH by blast
    moreover have "filter (\<lambda>v. v \<notin> set (out @ [u])) us
        = filter (\<lambda>y. y \<noteq> u) (filter (\<lambda>u. u \<notin> set out) us)"
      by (auto intro: filter_cong)
    ultimately show ?thesis using unot by simp
  qed
qed

lemma set_key_str: "is_str x \<Longrightarrow> set_key y = set_key x \<Longrightarrow> y = x"
  by (cases x; cases y) (auto split: if_splits)

lemma inj_on_set_key:
  assumes "list_all is_str xs" and "length v \<le> 1"
  shows "inj_on set_key (set (xs @ v))"
proof (rule inj_onI)
  fix a b
  assume a: "a \<in> set (xs @ v)" and b: "b \<in> set (xs @ v)" and k: "set_key a = set_key b"
  show "a = b"
  proof (cases "is_str a \<or> is_str b")
    case True
    then show ?thesis using k set_key_str [of a b] set_key_str [of b a] by auto
  next
    case False
    with a b assms(1) have "a \<in> set v" "b \<in> set v" by (auto simp: list_all_iff)
    with assms(2) show ?thesis by (cases v) auto
  qed
qed


lemma dedup_loop_collect:
  assumes "dedup_loop (xs @ v) {} [] = Inr ys" and "list_all is_str xs" and "length v \<le> 1"
  shows "ys = first_occurrences (xs @ v)"
proof -
  have "inj_on set_key (set (xs @ v) \<union> set [])"
    using inj_on_set_key [OF assms(2,3)] by simp
  from dedup_loop_first_occurrences [OF assms(1) this] show ?thesis by simp
qed


text \<open>
  Claim C3, as amended. Whenever the media extractor returns, its \<open>media_urls\<close> are the
  first occurrences, in order, of the candidates taken block by block: the direct link,
  then the preview images in listed order (each image contributing its source URL and
  then its resolution URLs), then the gallery items, then the hosted-video fallback.
  The list has no duplicates, is a subsequence of the candidates with the same
  elements, and \<open>primary_media_url\<close> is its first element, or absent when it is empty.
\<close>

theorem media_urls_first_occurrences_in_block_order:
  assumes "extract_media info = Inr r"
  shows "\<exists>d p g v ps.
      direct_link info [] = Inr d \<and> preview_images info [] = Inr p
    \<and> gallery_items info [] = Inr g \<and> hosted_video info [] = Inr v
    \<and> list_all2 (\<lambda>img q. \<exists>s rs. image_source img [] = Inr s
                   \<and> image_resolutions img [] = Inr rs \<and> q = s @ rs) (preview_entries info) ps
    \<and> p = concat ps
    \<and> media_urls r = first_occurrences (d @ p @ g @ v)
    \<and> distinct (media_urls r)
    \<and> subseq (media_urls r) (d @ p @ g @ v)
    \<and> set (media_urls r) = set (d @ p @ g @ v)
    \<and> primary_media_url r = (case media_urls r of [] \<Rightarrow> None | u # us \<Rightarrow> Some u)"
proof -
  from assms obtain urls deduped where urls: "collect_media info = Inr urls"
    and dd: "dedup_loop urls {} [] = Inr deduped"
    and r: "r = \<lparr>media_urls = deduped,
                 primary_media_url = (case deduped of [] \<Rightarrow> None | u # us \<Rightarrow> Some u)\<rparr>"
    by (auto simp: extract_media_def split: sum.splits)
  from collect_media_parts [OF urls] obtain d p g v where
    parts: "direct_link info [] = Inr d" "preview_images info [] = Inr p"
      "gallery_items info [] = Inr g" "hosted_video info [] = Inr v"
    and eq: "urls = d @ p @ g @ v" and strs: "list_all is_str (d @ p @ g)" and v: "length v \<le> 1"
    by blast
  from preview_images_per_image [OF parts(2)] obtain ps where
    ps: "list_all2 (\<lambda>img q. \<exists>s rs. image_source img [] = Inr s
                   \<and> image_resolutions img [] = Inr rs \<and> q = s @ rs) (preview_entries info) ps"
      "p = concat ps"
    by blast
  from dd eq have "dedup_loop ((d @ p @ g) @ v) {} [] = Inr deduped" by simp
  from dedup_loop_collect [OF this strs v]
  have m: "media_urls r = first_occurrences (d @ p @ g @ v)" using r by simp
  have "distinct (media_urls r)" "subseq (media_urls r) (d @ p @ g @ v)"
    "set (media_urls r) = set (d @ p @ g @ v)"
    unfolding m
    by (rule distinct_first_occurrences subseq_first_occurrences set_first_occurrences)+
  moreover have "primary_media_url r = (case media_urls r of [] \<Rightarrow> None | u # us \<Rightarrow> Some u)"
    using r by simp
  ultimately show ?thesis using parts ps m by blast
qed

theorem media_urls_first_occurrences_in_block_order_witness:
  "extract_media repeated_urls =
     Inr \<lparr>media_urls = [JStr ''https://i.redd.it/a.png'', JStr ''https://x/r?w=1&h=2'',
                        JStr ''https://v.redd.it/f''],
          primary_media_url = Some (JStr ''https://i.redd.it/a.png'')\<rparr>
   \<and> (\<exists>cands. [JStr ''https://i.redd.it/a.png'', JStr ''https://x/r?w=1&h=2'',
                  JStr ''https://v.redd.it/f''] = first_occurrences cands)"
proof -
  have e: "extract_media repeated_urls =
     Inr \<lparr>media_urls = [JStr ''https://i.redd.it/a.png'', JStr ''https://x/r?w=1&h=2'',
                        JStr ''https://v.redd.it/f''],
          primary_media_url = Some (JStr ''https://i.redd.it/a.png'')\<rparr>"
    by (simp add: repeated_urls_def media_defs)
  from media_urls_first_occurrences_in_block_order [OF e] have
    "\<exists>cands. [JStr ''https://i.redd.it/a.png'', JStr ''https://x/r?w=1&h=2'',
                  JStr ''https://v.redd.it/f''] = first_occurrences cands"
    by auto
  with e show ?thesis by simp
qed

text \<open>
  Claim C3, as stated, fails: with two preview images the source URL of the second
  image (\<open>c\<close>) comes after the resolution URL of the first (\<open>b\<close>), whereas the order
  kind by kind puts every source URL before every resolution URL.
\<close>

theorem media_urls_not_in_kind_order:
  "extract_media two_images =
     Inr \<lparr>media_urls = [JStr ''a'', JStr ''b'', JStr ''c'', JStr ''d''],
          primary_media_url = Some (JStr ''a'')\<rparr>
   \<and> kind_order_urls two_images = Inr [JStr ''a'', JStr ''c'', JStr ''b'', JStr ''d'']
   \<and> map_sum id media_urls (extract_media two_images) \<noteq> kind_order_urls two_images"
  by (simp add: two_images_def kind_order_urls_def preview_entries_def media_defs)

text \<open>
  Claim C8. A submission whose url ends, in any letter case, in one of the media
  extensions and whose preview, gallery_data, media_metadata, media and secure_media
  are absent or null has exactly that url as its \<open>media_urls\<close> and as its
  \<open>primary_media_url\<close>.
\<close>

theorem direct_media_link_only:
  assumes "dict_get info ''url'' JNull = Inr (JStr u)"
    and "has_media_ext u"
    and "dict_get info ''preview'' JNull = Inr JNull"
    and "dict_get info ''gallery_data'' JNull = Inr JNull"
    and "dict_get info ''media_metadata'' JNull = Inr JNull"
    and "dict_get info ''media'' JNull = Inr JNull"
    and "dict_get info ''secure_media'' JNull = Inr JNull"
  shows "extract_media info = Inr \<lparr>media_urls = [JStr u], primary_media_url = Some (JStr u)\<rparr>"
proof -
  have "py_or (JStr u) (JStr []) = JStr u" by (simp add: py_or_def)
  with assms(1,2) have "direct_link info [] = Inr [JStr u]" by (simp add: direct_link_def)
  moreover from assms(3) have "preview_images info [JStr u] = Inr [JStr u]"
    by (simp add: preview_images_def)
  moreover from assms(4,5) have "gallery_items info [JStr u] = Inr [JStr u]"
    by (simp add: gallery_items_def)
  moreover from assms(6,7) have "hosted_video info [JStr u] = Inr [JStr u]"
    by (simp add: hosted_video_def)
  ultimately have "collect_media info = Inr [JStr u]" by (simp add: collect_media_def)
  then show ?thesis by (simp add: extract_media_def)
qed

theorem direct_media_link_only_witness:
  "has_media_ext ''https://i.redd.it/Cat.PNG''
   \<and> extract_media png_link =
       Inr \<lparr>media_urls = [JStr ''https://i.redd.it/Cat.PNG''],
            primary_media_url = Some (JStr ''https://i.redd.it/Cat.PNG'')\<rparr>"
proof -
  have h: "has_media_ext ''https://i.redd.it/Cat.PNG''"
    by (simp add: has_media_ext_def media_exts_def lower_def lower_char_def suffix_def)
  have "extract_media png_link =
       Inr \<lparr>media_urls = [JStr ''https://i.redd.it/Cat.PNG''],
            primary_media_url = Some (JStr ''https://i.redd.it/Cat.PNG'')\<rparr>"
    by (rule direct_media_link_only [OF _ h]) (simp_all add: png_link_def)
  with h show ?thesis by simp
qed

section \<open>Properties of the comment records\<close>

declare visit.simps [simp del]

text \<open>
  Claim C5. The parent-linkage fields of a comment record are a function of the
  upstream parent reference alone: a reference that starts with \<open>t1_\<close> gives the
  reference without that prefix as \<open>parent_id\<close> and \<open>is_top_level\<close> false; one that
  starts with \<open>t3_\<close> gives no \<open>parent_id\<close> and \<open>is_top_level\<close> true; any other string,
  and a missing or empty reference, gives no \<open>parent_id\<close> and \<open>is_top_level\<close> false.
  The record keeps the reference as \<open>parent_fullname\<close>, and \<open>in_reply_to\<close> equals
  \<open>parent_id\<close>.
\<close>

theorem parent_linkage_rule:
  "(prefix ''t1_'' s \<longrightarrow> parent_linkage (JStr s) = Inr (Some (drop 3 s), False))
 \<and> (prefix ''t3_'' s \<longrightarrow> parent_linkage (JStr s) = Inr (None, True))
 \<and> (\<not> prefix ''t1_'' s \<and> \<not> prefix ''t3_'' s \<longrightarrow> parent_linkage (JStr s) = Inr (None, False))
 \<and> (\<not> truthy v \<longrightarrow> parent_linkage v = Inr (None, False))
 \<and> (comment_of lib data d = Inr c \<longrightarrow>
       c_parent_fullname c = field data ''parent_id'' JNull
     \<and> parent_linkage (c_parent_fullname c) = Inr (c_parent_id c, c_is_top_level c)
     \<and> c_in_reply_to c = c_parent_id c)"
proof -
  have "prefix ''t3_'' s \<Longrightarrow> \<not> prefix ''t1_'' s" by (auto simp: prefix_def)
  moreover have "comment_of lib data d = Inr c \<Longrightarrow>
       c_parent_fullname c = field data ''parent_id'' JNull
     \<and> parent_linkage (c_parent_fullname c) = Inr (c_parent_id c, c_is_top_level c)
     \<and> c_in_reply_to c = c_parent_id c"
    by (auto simp: comment_of_def field_def split: sum.splits prod.splits)
  ultimately show ?thesis
    by (auto simp: parent_linkage_def)
qed


theorem parent_linkage_rule_witness:
  "parent_linkage (JStr ''t1_xyz987'') = Inr (Some ''xyz987'', False)
 \<and> parent_linkage (JStr ''t3_abc123'') = Inr (None, True)
 \<and> parent_linkage (JStr ''t5_2qh1i'') = Inr (None, False)
 \<and> parent_linkage JNull = Inr (None, False)
 \<and> comment_of plain_lib reply_data 1 =
     Inr \<lparr>c_id = JStr ''c2'', c_author = JNull, c_body = JStr ''hi'', c_created_utc = JNum 0,
          c_created_date = JNull, c_ups = JNull, c_downs = JNull, c_depth = 1,
          c_parent_fullname = JStr ''t1_xyz987'', c_parent_id = Some ''xyz987'',
          c_in_reply_to = Some ''xyz987'', c_is_top_level = False\<rparr>
 \<and> parent_linkage (field reply_data ''parent_id'' JNull) = Inr (Some ''xyz987'', False)"
proof -
  have a: "parent_linkage (JStr ''t1_xyz987'') = Inr (Some ''xyz987'', False)"
    using parent_linkage_rule [of "''t1_xyz987''"] by simp
  have b: "parent_linkage (JStr ''t3_abc123'') = Inr (None, True)"
    using parent_linkage_rule [of "''t3_abc123''"] by simp
  have c: "parent_linkage (JStr ''t5_2qh1i'') = Inr (None, False)"
    using parent_linkage_rule [of "''t5_2qh1i''"] by simp
  have d: "parent_linkage JNull = Inr (None, False)"
    using parent_linkage_rule [of _ JNull] by simp
  have e: "comment_of plain_lib reply_data 1 =
     Inr \<lparr>c_id = JStr ''c2'', c_author = JNull, c_body = JStr ''hi'', c_created_utc = JNum 0,
          c_created_date = JNull, c_ups = JNull, c_downs = JNull, c_depth = 1,
          c_parent_fullname = JStr ''t1_xyz987'', c_parent_id = Some ''xyz987'',
          c_in_reply_to = Some ''xyz987'', c_is_top_level = False\<rparr>"
    by (simp add: comment_of_def reply_data_def field_def a plain_lib_def py_or_def)
  have f: "parent_linkage (field reply_data ''parent_id'' JNull) = Inr (Some ''xyz987'', False)"
    using parent_linkage_rule [of _ _ plain_lib reply_data 1] e by fastforce
  from a b c d e f show ?thesis by simp
qed

text \<open>
  Claim C10. A placeholder whose child-ID list is absent or empty is skipped: the walk
  goes on with the next node in the state it had, so that no request is sent, no unit
  of the budget is used and no record is produced; and the more-fetcher given an
  empty ID list returns the empty list and sends nothing.
\<close>

theorem empty_placeholder_skipped:
  "(dict_get child ''kind'' JNull = Inr (JStr ''more'')
    \<and> dict_get child ''data'' (JObj []) = Inr data
    \<and> dict_get data ''children'' JNull = Inr ch \<and> \<not> truthy ch
      \<longrightarrow> walk fuel srv lib link_id more_limit (child # rest) depth st
            = walk fuel srv lib link_id more_limit rest depth st)
 \<and> (\<not> truthy ids \<longrightarrow> fetch_more_children srv link_id ids hist = (Inr (JArr []), hist))"
  by (simp add: fetch_more_children_def py_or_def visit.simps)

theorem empty_placeholder_skipped_witness:
  "walk 0 refusing_server plain_lib (JStr ''t3_abc123'') None [empty_placeholder] 0
      \<lparr>comments = [], more_used = 0, sent = []\<rparr>
     = (Done (), \<lparr>comments = [], more_used = 0, sent = []\<rparr>)
 \<and> fetch_more_children refusing_server (JStr ''t3_abc123'') (JArr []) [] = (Inr (JArr []), [])"
  using empty_placeholder_skipped [of empty_placeholder "JObj [(''children'', JArr [])]" "JArr []"
      0 refusing_server plain_lib "JStr ''t3_abc123''" None "[]" 0
      "\<lparr>comments = [], more_used = 0, sent = []\<rparr>" "JArr []" "[]"]
  by (simp add: empty_placeholder_def)


section \<open>Properties of a listing page\<close>

lemma listing_page_skip:
  "is_dict child \<Longrightarrow> \<not> is_submission child \<Longrightarrow>
   listing_page lib full (child # rest) remaining yielded
     = listing_page lib full rest remaining yielded"
  by (cases child) (auto simp: is_submission_def)

lemma listing_page_filter:
  "list_all is_dict children \<Longrightarrow>
   listing_page lib full children remaining yielded
     = listing_page lib full (filter is_submission children) remaining yielded"
proof (induction children arbitrary: remaining yielded)
  case Nil
  show ?case by simp
next
  case (Cons child rest)
  then have d: "is_dict child" and r: "list_all is_dict rest" by simp_all
  show ?case
  proof (cases "is_submission child")
    case False
    have "listing_page lib full (child # rest) remaining yielded
        = listing_page lib full rest remaining yielded"
      by (rule listing_page_skip [OF d False])
    also have "\<dots> = listing_page lib full (filter is_submission rest) remaining yielded"
      by (rule Cons.IH [OF r])
    finally show ?thesis using False by simp
  next
    case True
    then have k: "dict_get child ''kind'' JNull = Inr (JStr ''t3'')" by (simp add: is_submission_def)
    show ?thesis using True k Cons.IH [OF r]
      by (simp add: Let_def cong: if_cong split del: if_split split: sum.splits option.splits)
  qed
qed

lemma listing_page_yields:
  assumes "listing_page lib full children remaining yielded = (e, yielded')"
  shows "\<exists>new. yielded' = yielded @ new
           \<and> length new \<le> length (filter is_submission children)
           \<and> list_all2 (yields_for lib full) (take (length new) (filter is_submission children)) new
           \<and> (case e of Continue r \<Rightarrow> r = map_option (\<lambda>k. k - int (length new)) remaining
               | Returned \<Rightarrow> (case remaining of None \<Rightarrow> False | Some k \<Rightarrow> k - int (length new) \<le> 0)
               | Failed err \<Rightarrow> True)"
  using assms
proof (induction children arbitrary: remaining yielded)
  case Nil
  then show ?case by (cases remaining) auto
next
  case (Cons child rest)
  show ?case
  proof (cases "dict_get child ''kind'' JNull")
    case (Inl err)
    with Cons.prems show ?thesis by (auto simp: is_submission_def)
  next
    case (Inr kind)
    show ?thesis
    proof (cases "kind = JStr ''t3''")
      case False
      with Inr have ns: "\<not> is_submission child" by (simp add: is_submission_def)
      from False Inr Cons.prems
      have "listing_page lib full rest remaining yielded = (e, yielded')" by simp
      from Cons.IH [OF this] ns show ?thesis by simp
    next
      case True
      with Inr have s: "is_submission child" by (simp add: is_submission_def)
      show ?thesis
      proof (cases "subscript child ''data''")
        case (Inl err)
        with Cons.prems Inr True show ?thesis by auto
      next
        case i: (Inr info)
        show ?thesis
        proof (cases "submission_fields_of lib info")
          case (Inl err)
          with Cons.prems Inr True i show ?thesis by auto
        next
          case f: (Inr fs)
          define item where "item = \<lparr>item_fields = fs, raw = (if full then Some info else None)\<rparr>"
          have y: "yields_for lib full child item"
            using s i f by (simp add: yields_for_def item_def)
          show ?thesis
          proof (cases remaining)
            case None
            with Cons.prems Inr True i f
            have "listing_page lib full rest None (yielded @ [item]) = (e, yielded')"
              by (simp add: item_def)
            from Cons.IH [OF this] obtain new where
              new: "yielded' = (yielded @ [item]) @ new"
                "length new \<le> length (filter is_submission rest)"
                "list_all2 (yields_for lib full) (take (length new) (filter is_submission rest)) new"
                "(case e of Continue r \<Rightarrow> r = map_option (\<lambda>k. k - int (length new)) None
               | Returned \<Rightarrow> (case None :: int option of None \<Rightarrow> False | Some k \<Rightarrow> k - int (length new) \<le> 0)
               | Failed err \<Rightarrow> True)"
              by blast
            show ?thesis
              apply (rule exI [of _ "item # new"])
              using new s y None by (auto split: page_end.splits)
          next
            case (Some k)
            show ?thesis
            proof (cases "k - 1 \<le> 0")
              case True
              with Cons.prems Inr \<open>kind = JStr ''t3''\<close> i f Some
              have "e = Returned" "yielded' = yielded @ [item]" by (auto simp: item_def)
              then show ?thesis
                apply -
                apply (rule exI [of _ "[item]"])
                using s y Some True by auto
            next
              case False
              with Cons.prems Inr \<open>kind = JStr ''t3''\<close> i f Some
              have "listing_page lib full rest (Some (k - 1)) (yielded @ [item]) = (e, yielded')"
                by (simp add: item_def)
              from Cons.IH [OF this] obtain new where
                new: "yielded' = (yielded @ [item]) @ new"
                  "length new \<le> length (filter is_submission rest)"
                  "list_all2 (yields_for lib full) (take (length new) (filter is_submission rest)) new"
                  "(case e of Continue r \<Rightarrow> r = map_option (\<lambda>k. k - int (length new)) (Some (k - 1))
               | Returned \<Rightarrow> (case Some (k - 1) of None \<Rightarrow> False | Some k \<Rightarrow> k - int (length new) \<le> 0)
               | Failed err \<Rightarrow> True)"
                by blast
              show ?thesis
                apply (rule exI [of _ "item # new"])
                using new s y Some by (auto split: page_end.splits)
            qed
          qed
        qed
      qed
    qed
  qed
qed


text \<open>
  Claim C9. On a page of a hot/new/top listing only the children tagged \<open>t3\<close> are
  normalized and yielded: the page gives what the page without its other children
  gives, every yielded record is the record of a \<open>t3\<close> child, in order, and the
  remaining budget goes down by the number of records yielded and by nothing else.
\<close>

theorem only_submissions_yielded:
  "(list_all is_dict children \<longrightarrow>
      listing_page lib full children remaining yielded
        = listing_page lib full (filter is_submission children) remaining yielded)
 \<and> (listing_page lib full children remaining yielded = (e, yielded') \<longrightarrow>
      (\<exists>new. yielded' = yielded @ new
           \<and> length new \<le> length (filter is_submission children)
           \<and> list_all2 (yields_for lib full)
                 (take (length new) (filter is_submission children)) new
           \<and> (case e of Continue r \<Rightarrow> r = map_option (\<lambda>k. k - int (length new)) remaining
               | Returned \<Rightarrow> (case remaining of None \<Rightarrow> False
                                | Some k \<Rightarrow> k - int (length new) \<le> 0)
               | Failed err \<Rightarrow> True)))"
  using listing_page_filter listing_page_yields by blast

theorem only_submissions_yielded_witness:
  "list_all is_dict mixed_page
 \<and> filter is_submission mixed_page = [JObj [(''kind'', JStr ''t3''), (''data'', png_link)]]
 \<and> listing_page plain_lib False mixed_page (Some 5) []
      = (Continue (Some 4), [\<lparr>item_fields = png_record, raw = None\<rparr>])
 \<and> listing_page plain_lib False (filter is_submission mixed_page) (Some 5) []
      = (Continue (Some 4), [\<lparr>item_fields = png_record, raw = None\<rparr>])"
proof -
  have d: "list_all is_dict mixed_page" by (simp add: mixed_page_def)
  have f: "filter is_submission mixed_page = [JObj [(''kind'', JStr ''t3''), (''data'', png_link)]]"
    by (simp add: mixed_page_def is_submission_def)
  have s: "submission_fields_of plain_lib png_link = Inr png_record"
    by (simp add: submission_fields_of_def png_link_def png_record_def plain_lib_def media_defs)
  have e: "listing_page plain_lib False (filter is_submission mixed_page) (Some 5) []
      = (Continue (Some 4), [\<lparr>item_fields = png_record, raw = None\<rparr>])"
    by (simp add: f s)
  from only_submissions_yielded [of mixed_page plain_lib False "Some 5" "[]"] d e
  have "listing_page plain_lib False mixed_page (Some 5) []
      = (Continue (Some 4), [\<lparr>item_fields = png_record, raw = None\<rparr>])"
    by simp
  with d f e show ?thesis by simp
qed

section \<open>Transport failures propagate\<close>

lemma no_http_failure_append:
  "no_http_failure srv hist (a @ b) = (no_http_failure srv hist a \<and> no_http_failure srv (hist @ a) b)"
  by (induction a arbitrary: hist) auto

lemma fails_fast_append:
  "no_http_failure srv hist a \<Longrightarrow> fails_fast srv (hist @ a) b raised \<Longrightarrow> fails_fast srv hist (a @ b) raised"
  by (auto simp: fails_fast_def no_http_failure_append butlast_append)

lemma sends_refl: "sends srv hist hist False"
  by (simp add: sends_def fails_fast_def)

lemma sends_trans:
  assumes "sends srv h1 h2 False" and "sends srv h2 h3 raised"
  shows "sends srv h1 h3 raised"
proof -
  from assms(1) obtain a where a: "h2 = h1 @ a" "no_http_failure srv h1 a"
    by (metis append_take_drop_id sends_def fails_fast_def)
  from assms(2) obtain b where b: "h3 = h2 @ b" "fails_fast srv h2 b raised"
    by (metis append_take_drop_id sends_def)
  from a b have "fails_fast srv h1 (a @ b) raised" by (simp add: fails_fast_append)
  with a b show ?thesis by (simp add: sends_def)
qed

lemma reddit_get_sends:
  "reddit_get srv p ps hist = (r, hist') \<Longrightarrow> sends srv hist hist' (r = Inl RedditHTTPError)"
  by (auto simp: reddit_get_def Let_def sends_def fails_fast_def http_failed_def
      split: response.splits if_splits option.splits)

lemma dict_get_error: "dict_get x k dflt = Inl e \<Longrightarrow> e = AttributeError"
  by (cases x) auto

lemma subscript_error: "subscript x k = Inl e \<Longrightarrow> e = TypeError \<or> e = KeyError"
  by (cases x) (auto split: option.splits)

lemma item_at_error: "item_at x i = Inl e \<Longrightarrow> e = TypeError \<or> e = KeyError \<or> e = IndexError"
  by (cases x) (auto split: if_splits)

lemma iter_items_error: "iter_items x = Inl e \<Longrightarrow> e = TypeError"
  by (cases x) auto

lemma str_items_error: "str_items xs = Inl e \<Longrightarrow> e = TypeError"
  by (induction xs rule: str_items.induct) (auto split: sum.splits)

lemma comma_join_error: "comma_join x = Inl e \<Longrightarrow> e = TypeError"
  by (auto simp: comma_join_def split: sum.splits dest: iter_items_error str_items_error)

lemma fetch_more_children_sends:
  assumes "fetch_more_children srv link_id ids hist = (r, hist')"
  shows "sends srv hist hist' (r = Inl RedditHTTPError)"
proof (cases "truthy ids")
  case False
  with assms show ?thesis by (auto simp: fetch_more_children_def sends_refl)
next
  case True
  show ?thesis
  proof (cases "comma_join ids")
    case (Inl e)
    with True assms comma_join_error [OF Inl] show ?thesis
      by (auto simp: fetch_more_children_def sends_refl)
  next
    case (Inr joined)
    obtain g h where g: "reddit_get srv ''/api/morechildren.json''
                    [(''api_type'', JStr ''json''), (''link_id'', link_id),
                     (''children'', JStr joined), (''limit_children'', JBool False),
                     (''sort'', JStr ''confidence'')] hist = (g, h)"
      by (cases "reddit_get srv ''/api/morechildren.json''
                    [(''api_type'', JStr ''json''), (''link_id'', link_id),
                     (''children'', JStr joined), (''limit_children'', JBool False),
                     (''sort'', JStr ''confidence'')] hist") auto
    from reddit_get_sends [OF g] have s: "sends srv hist h (g = Inl RedditHTTPError)" .
    from assms True Inr g have "hist' = h"
      by (auto simp: fetch_more_children_def split: sum.splits)
    moreover from assms True Inr g have "(r = Inl RedditHTTPError) = (g = Inl RedditHTTPError)"
      by (auto simp: fetch_more_children_def split: sum.splits dest: dict_get_error)
    ultimately show ?thesis using s by simp
  qed
qed


lemma parent_linkage_error: "parent_linkage v = Inl e \<Longrightarrow> e = AttributeError"
  by (auto simp: parent_linkage_def split: if_splits json.splits)

lemma comment_of_error: "comment_of lib data d = Inl e \<Longrightarrow> local_error e"
  by (auto simp: comment_of_def local_error_def split: sum.splits prod.splits
      dest: dict_get_error parent_linkage_error subscript_error)

lemma reply_children_error: "reply_children data = Inl e \<Longrightarrow> local_error e"
  by (auto simp: reply_children_def local_error_def split: sum.splits if_splits
      dest: dict_get_error subscript_error)

lemma fetch_more_children_local:
  "fetch_more_children srv link_id ids hist = (Inl e, hist') \<Longrightarrow>
     local_error e \<and> hist' = hist \<or> (\<exists>rq. hist' = hist @ [rq])"
  by (auto simp: fetch_more_children_def reddit_get_def Let_def local_error_def
      split: if_splits sum.splits response.splits option.splits dest: comma_join_error)

lemma dict_get_local: "dict_get x k dflt = Inl e \<Longrightarrow> local_error e"
  by (auto simp: local_error_def dest: dict_get_error)

lemma iter_items_local: "iter_items x = Inl e \<Longrightarrow> local_error e"
  by (auto simp: local_error_def dest: iter_items_error)

text \<open>Every run of the walk is built from these steps.\<close>

lemma walk_visit_invariant:
  assumes refl: "\<And>st. R st (Done ()) st"
    and trans: "\<And>st st1 st2 r. R st (Done ()) st1 \<Longrightarrow> R st1 r st2 \<Longrightarrow> R st r st2"
    and raise: "\<And>st e. local_error e \<Longrightarrow> R st (Raised e) st"
    and fuel0: "\<And>st. R st OutOfFuel st"
    and emit: "\<And>st c. R st (Done ()) (st\<lparr>comments := comments st @ [c]\<rparr>)"
    and expand: "\<And>st ids r hist.
        \<not> budget_spent more_limit (more_used st) \<Longrightarrow> truthy ids \<Longrightarrow>
        fetch_more_children srv link_id ids (sent st) = (r, hist) \<Longrightarrow>
        R st (case r of Inl e \<Rightarrow> Raised e | Inr things \<Rightarrow> Done ())
          (st\<lparr>more_used := more_used st + 1, sent := hist\<rparr>)"
  shows "walk fuel srv lib link_id more_limit xs d st = (res, st') \<Longrightarrow> R st res st'"
    and "visit fuel srv lib link_id more_limit x d st = (res, st') \<Longrightarrow> R st res st'"
  using expand
proof (induction fuel srv lib link_id more_limit xs d st and fuel srv lib link_id more_limit x d st
    arbitrary: res st' and res st' rule: walk_visit.induct)
  case (1 fuel srv lib link_id more_limit depth_inner st)
  then show ?case using refl by simp
next
  case (2 fuel srv lib link_id more_limit child rest depth_inner st)
  note ex = "2.prems"(2)
  obtain r1 st1 where v: "visit fuel srv lib link_id more_limit child depth_inner st = (r1, st1)"
    by (cases "visit fuel srv lib link_id more_limit child depth_inner st") auto
  have r1: "R st r1 st1" using "2.IH"(1) [OF v ex] .
  show ?case
  proof (cases r1)
    case (Done u)
    with v "2.prems"(1) have "walk fuel srv lib link_id more_limit rest depth_inner st1 = (res, st')"
      by simp
    from "2.IH"(2) [OF v [symmetric] Done this ex] r1 Done show ?thesis
      using trans by simp
  next
    case (Raised e)
    with v "2.prems"(1) r1 show ?thesis by simp
  next
    case OutOfFuel
    with v "2.prems"(1) r1 show ?thesis by simp
  qed
next
  case (3 fuel srv lib link_id more_limit child depth_inner st)
  note run = "3.prems"(1) [unfolded visit.simps] and ex = "3.prems"(2)
  show ?case
  proof (cases "dict_get child ''kind'' JNull")
    case (Inl e)
    with run have "res = Raised e" "st' = st" by auto
    then show ?thesis using raise [OF dict_get_local [OF Inl]] by simp
  next
    case k: (Inr kind)
    show ?thesis
    proof (cases "dict_get child ''data'' (JObj [])")
      case (Inl e)
      with run k have "res = Raised e" "st' = st" by auto
      then show ?thesis using raise [OF dict_get_local [OF Inl]] by simp
    next
      case dt: (Inr data)
      consider (t1) "kind = JStr ''t1''"
        | (more) "kind \<noteq> JStr ''t1''" "kind = JStr ''more''"
        | (other) "kind \<noteq> JStr ''t1''" "kind \<noteq> JStr ''more''"
        by blast
      then show ?thesis
      proof cases
        case t1
        show ?thesis
        proof (cases "comment_of lib data depth_inner")
          case (Inl e)
          with run k dt t1 have "res = Raised e" "st' = st" by auto
          then show ?thesis using raise [OF comment_of_error [OF Inl]] by simp
        next
          case c: (Inr c)
          define st1 where "st1 = st\<lparr>comments := comments st @ [c]\<rparr>"
          have em: "R st (Done ()) st1" unfolding st1_def by (rule emit)
          show ?thesis
          proof (cases "reply_children data")
            case (Inl e)
            with run k dt t1 c have "res = Raised e" "st' = st1" by (simp_all add: st1_def)
            then show ?thesis
              using trans [OF em raise [OF reply_children_error [OF Inl]]] by simp
          next
            case rc: (Inr ro)
            show ?thesis
            proof (cases ro)
              case None
              with run k dt t1 c rc have "res = Done ()" "st' = st1" by (simp_all add: st1_def)
              with em show ?thesis by simp
            next
              case (Some replies)
              show ?thesis
              proof (cases fuel)
                case 0
                with run k dt t1 c rc Some have "res = OutOfFuel" "st' = st1"
                  by (simp_all add: st1_def)
                then show ?thesis using trans [OF em fuel0] by simp
              next
                case (Suc f)
                show ?thesis
                proof (cases "iter_items replies")
                  case (Inl e)
                  with run k dt t1 c rc Some Suc have "res = Raised e" "st' = st1"
                    by (simp_all add: st1_def)
                  then show ?thesis
                    using trans [OF em raise [OF iter_items_local [OF Inl]]] by simp
                next
                  case it: (Inr items)
                  from run k dt t1 c rc Some Suc it
                  have w: "walk f srv lib link_id more_limit items (depth_inner + 1) st1 = (res, st')"
                    by (simp add: st1_def)
                  have "R st1 res st'"
                    by (rule "3.IH"(1) [OF k dt t1 c st1_def rc Some Suc it w ex])
                  with em show ?thesis by (rule trans)
                qed
              qed
            qed
          qed
        qed
      next
        case more
        show ?thesis
        proof (cases "budget_spent more_limit (more_used st)")
          case True
          with run k dt more show ?thesis using refl by simp
        next
          case nb: False
          show ?thesis
          proof (cases "dict_get data ''children'' JNull")
            case (Inl e)
            with run k dt more nb have "res = Raised e" "st' = st" by auto
            then show ?thesis using raise [OF dict_get_local [OF Inl]] by simp
          next
            case ch: (Inr ch)
            define ids where "ids = py_or ch (JArr [])"
            show ?thesis
            proof (cases "truthy ids")
              case False
              with run k dt more nb ch show ?thesis using refl by (simp add: ids_def)
            next
              case tr: True
              define st1 where "st1 = st\<lparr>more_used := more_used st + 1\<rparr>"
              obtain r hist where f: "fetch_more_children srv link_id ids (sent st1) = (r, hist)"
                by (cases "fetch_more_children srv link_id ids (sent st1)") auto
              define st2 where "st2 = st1\<lparr>sent := hist\<rparr>"
              have st2: "st2 = st\<lparr>more_used := more_used st + 1, sent := hist\<rparr>"
                by (simp add: st2_def st1_def)
              from f have f': "fetch_more_children srv link_id ids (sent st) = (r, hist)"
                by (simp add: st1_def)
              have step: "R st (case r of Inl e \<Rightarrow> Raised e | Inr things \<Rightarrow> Done ()) st2"
                unfolding st2 by (rule ex [OF nb tr f'])
              show ?thesis
              proof (cases r)
                case (Inl e)
                with run k dt more nb ch tr f have "res = Raised e" "st' = st2"
                  by (simp_all add: ids_def st1_def st2_def)
                with step Inl show ?thesis by simp
              next
                case things: (Inr things)
                with step have d: "R st (Done ()) st2" by simp
                show ?thesis
                proof (cases "truthy things")
                  case False
                  with run k dt more nb ch tr f things have "res = Done ()" "st' = st2"
                    by (simp_all add: ids_def st1_def st2_def)
                  with d show ?thesis by simp
                next
                  case tt: True
                  show ?thesis
                  proof (cases fuel)
                    case 0
                    with run k dt more nb ch tr f things tt have "res = OutOfFuel" "st' = st2"
                      by (simp_all add: ids_def st1_def st2_def)
                    then show ?thesis using trans [OF d fuel0] by simp
                  next
                    case (Suc f')
                    show ?thesis
                    proof (cases "iter_items things")
                      case (Inl e)
                      with run k dt more nb ch tr f things tt Suc
                      have "res = Raised e" "st' = st2"
                        by (simp_all add: ids_def st1_def st2_def)
                      then show ?thesis
                        using trans [OF d raise [OF iter_items_local [OF Inl]]] by simp
                    next
                      case it: (Inr items)
                      from run k dt more nb ch tr f things tt Suc it
                      have w: "walk f' srv lib link_id more_limit items depth_inner st2 = (res, st')"
                        by (simp add: ids_def st1_def st2_def)
                      have nn: "\<not> \<not> truthy ids" using tr by simp
                      have "R st2 res st'"
                        by (rule "3.IH"(2) [OF k dt more nb ch ids_def nn st1_def f [symmetric]
                              things st2_def tt Suc it w ex])
                      with d show ?thesis by (rule trans)
                    qed
                  qed
                qed
              qed
            qed
          qed
        qed
      next
        case other
        with run k dt show ?thesis using refl by simp
      qed
    qed
  qed
qed


lemma local_not_http: "local_error e \<Longrightarrow> e \<noteq> RedditHTTPError"
  by (auto simp: local_error_def)

lemma walk_sends:
  assumes "walk fuel srv lib link_id more_limit xs d st = (res, st')"
  shows "sends srv (sent st) (sent st') (res = Raised RedditHTTPError)"
proof (rule walk_visit_invariant(1)
    [where R = "\<lambda>st res st'. sends srv (sent st) (sent st') (res = Raised RedditHTTPError)",
      OF _ _ _ _ _ _ assms])
  fix st :: walk_state
  show "sends srv (sent st) (sent st) (Done () = Raised RedditHTTPError)"
    by (simp add: sends_refl)
  show "sends srv (sent st) (sent st) (OutOfFuel = Raised RedditHTTPError)"
    by (simp add: sends_refl)
  show "sends srv (sent st) (sent (st\<lparr>comments := comments st @ [c]\<rparr>))
          (Done () = Raised RedditHTTPError)" for c
    by (simp add: sends_refl)
  show "sends srv (sent st) (sent st) (Raised e = Raised RedditHTTPError)" if "local_error e" for e
    using local_not_http [OF that] by (simp add: sends_refl)
next
  fix st st1 st2 :: walk_state and r :: "unit outcome"
  assume "sends srv (sent st) (sent st1) (Done () = Raised RedditHTTPError)"
    and "sends srv (sent st1) (sent st2) (r = Raised RedditHTTPError)"
  then show "sends srv (sent st) (sent st2) (r = Raised RedditHTTPError)"
    using sends_trans by simp
next
  fix st :: walk_state and ids r hist
  assume "fetch_more_children srv link_id ids (sent st) = (r, hist)"
  from fetch_more_children_sends [OF this]
  show "sends srv (sent st) (sent (st\<lparr>more_used := more_used st + 1, sent := hist\<rparr>))
          ((case r of Inl e \<Rightarrow> Raised e | Inr things \<Rightarrow> Done ()) = Raised RedditHTTPError)"
    by (cases r) simp_all
qed

lemma flatten_comments_sends:
  assumes "flatten_comments fuel srv lib children link_id d more_limit hist = (res, hist')"
  shows "sends srv hist hist' (res = Raised RedditHTTPError)"
proof (cases "iter_items children")
  case (Inl e)
  with assms local_not_http [OF iter_items_local [OF Inl]] show ?thesis
    by (auto simp: flatten_comments_def sends_refl)
next
  case (Inr items)
  obtain r st where w: "walk fuel srv lib link_id more_limit items d
      \<lparr>comments = [], more_used = 0, sent = hist\<rparr> = (r, st)"
    by (cases "walk fuel srv lib link_id more_limit items d
      \<lparr>comments = [], more_used = 0, sent = hist\<rparr>") auto
  from walk_sends [OF w] have "sends srv hist (sent st) (r = Raised RedditHTTPError)" by simp
  with assms Inr w show ?thesis
    by (cases r) (auto simp: flatten_comments_def)
qed


lemma subscript_local: "subscript x k = Inl e \<Longrightarrow> local_error e"
  by (auto simp: local_error_def dest: subscript_error)

lemma item_at_local: "item_at x i = Inl e \<Longrightarrow> local_error e"
  by (auto simp: local_error_def dest: item_at_error)

lemma append_unescaped_local: "append_unescaped v acc = Inl e \<Longrightarrow> local_error e"
  by (auto simp: append_unescaped_def local_error_def split: if_splits json.splits)

lemma resolutions_loop_local: "resolutions_loop rs acc = Inl e \<Longrightarrow> local_error e"
  by (induction rs arbitrary: acc)
     (auto split: sum.splits dest: dict_get_local append_unescaped_local)

lemma image_source_local: "image_source img acc = Inl e \<Longrightarrow> local_error e"
  by (auto simp: image_source_def split: sum.splits dest: dict_get_local append_unescaped_local)

lemma image_resolutions_local: "image_resolutions img acc = Inl e \<Longrightarrow> local_error e"
  by (auto simp: image_resolutions_def split: sum.splits
      dest: dict_get_local iter_items_local resolutions_loop_local)

lemma images_loop_local: "images_loop imgs acc = Inl e \<Longrightarrow> local_error e"
  by (induction imgs arbitrary: acc)
     (auto split: sum.splits dest: image_source_local image_resolutions_local)

lemma preview_images_local: "preview_images info acc = Inl e \<Longrightarrow> local_error e"
  by (auto simp: preview_images_def split: sum.splits if_splits
      dest: dict_get_local iter_items_local images_loop_local)

lemma dict_get_value_local: "dict_get_value d k = Inl e \<Longrightarrow> local_error e"
  by (cases d; cases k) (auto simp: local_error_def)

lemma gallery_loop_local: "gallery_loop mm items acc = Inl e \<Longrightarrow> local_error e"
  by (induction items arbitrary: acc)
     (auto split: sum.splits dest: dict_get_local dict_get_value_local append_unescaped_local)

lemma gallery_items_local: "gallery_items info acc = Inl e \<Longrightarrow> local_error e"
  by (auto simp: gallery_items_def split: sum.splits if_splits
      dest: dict_get_local iter_items_local gallery_loop_local)

lemma hosted_video_local: "hosted_video info acc = Inl e \<Longrightarrow> local_error e"
  by (auto simp: hosted_video_def split: sum.splits if_splits dest: dict_get_local)

lemma direct_link_local: "direct_link info acc = Inl e \<Longrightarrow> local_error e"
  by (auto simp: direct_link_def local_error_def split: sum.splits json.splits
      dest: dict_get_error)

lemma collect_media_local: "collect_media info = Inl e \<Longrightarrow> local_error e"
  by (auto simp: collect_media_def split: sum.splits
      dest: direct_link_local preview_images_local gallery_items_local hosted_video_local)

lemma dedup_loop_local: "dedup_loop us seen out = Inl e \<Longrightarrow> local_error e"
  by (induction us arbitrary: seen out) (auto simp: local_error_def split: if_splits)

lemma extract_media_local: "extract_media info = Inl e \<Longrightarrow> local_error e"
  by (auto simp: extract_media_def split: sum.splits dest: collect_media_local dedup_loop_local)

lemma submission_fields_of_local: "submission_fields_of lib info = Inl e \<Longrightarrow> local_error e"
  by (auto simp: submission_fields_of_def split: sum.splits
      dest: extract_media_local subscript_local)

lemma subreddit_of_local: "subreddit_of full child = Inl e \<Longrightarrow> local_error e"
  by (auto simp: subreddit_of_def split: sum.splits dest: subscript_local)

lemma page_children_local: "page_children data = Inl e \<Longrightarrow> local_error e"
  by (auto simp: page_children_def split: sum.splits dest: subscript_local)

lemma page_after_local: "page_after data = Inl e \<Longrightarrow> local_error e"
  by (auto simp: page_after_def split: sum.splits dest: subscript_local dict_get_local)

lemma link_info_of_local: "link_info_of raw_json = Inl e \<Longrightarrow> local_error e"
  by (auto simp: link_info_of_def split: sum.splits dest: subscript_local item_at_local)

lemma comments_listing_of_local: "comments_listing_of raw_json = Inl e \<Longrightarrow> local_error e"
  by (auto simp: comments_listing_of_def split: sum.splits dest: subscript_local item_at_local)

lemma search_page_local:
  "search_page full items remaining results = (Failed e, results') \<Longrightarrow> local_error e"
  by (induction items arbitrary: remaining results)
     (auto split: sum.splits option.splits if_splits dest: subreddit_of_local)

lemma listing_page_local:
  "listing_page lib full items remaining yielded = (Failed e, yielded') \<Longrightarrow> local_error e"
  by (induction items arbitrary: remaining yielded)
     (auto simp: Let_def split: sum.splits option.splits if_splits
        dest: dict_get_local subscript_local submission_fields_of_local)


lemma sends_local: "local_error e \<Longrightarrow> sends srv h h' False \<Longrightarrow> sends srv h h' (e = RedditHTTPError)"
  using local_not_http by auto


lemma search_loop_sends:
  "search_loop fuel srv full query after remaining results hist = (res, hist') \<Longrightarrow>
     sends srv hist hist' (res = Raised RedditHTTPError)"
proof (induction fuel arbitrary: after remaining results hist)
  case 0
  then show ?case by (auto simp: sends_refl)
next
  case (Suc fuel)
  obtain g h where g: "reddit_get srv ''/subreddits/search.json'' ([(''q'', JStr query), (''limit'', JNum (of_int (page_size remaining)))] @ (if truthy after then [(''after'', after)] else [])) hist = (g, h)"
    by (cases "reddit_get srv ''/subreddits/search.json'' ([(''q'', JStr query), (''limit'', JNum (of_int (page_size remaining)))] @ (if truthy after then [(''after'', after)] else [])) hist") auto
  note s = reddit_get_sends [OF g]
  show ?case
  proof (cases g)
    case (Inl e)
    with Suc.prems g s show ?thesis by auto
  next
    case (Inr data)
    with s have s': "sends srv hist h False" by simp
    show ?thesis
    proof (cases "page_children data")
      case (Inl e)
      with Suc.prems g Inr have "res = Raised e" "hist' = h" by auto
      with s' page_children_local [OF Inl] show ?thesis by (simp add: sends_local)
    next
      case ch: (Inr children)
      show ?thesis
      proof (cases "iter_items children")
        case (Inl e)
        with Suc.prems g Inr ch have "res = Raised e" "hist' = h" by auto
        with s' iter_items_local [OF Inl] show ?thesis by (simp add: sends_local)
      next
        case it: (Inr items)
        obtain pe acc' where p: "search_page full items remaining results = (pe, acc')"
          by (cases "search_page full items remaining results") auto
        show ?thesis
        proof (cases pe)
          case (Failed e)
          with Suc.prems g Inr ch it p have "res = Raised e" "hist' = h" by auto
          with s' search_page_local [OF p [unfolded Failed]] show ?thesis by (simp add: sends_local)
        next
          case Returned
          with Suc.prems g Inr ch it p have "\<exists>v. res = Done v" "hist' = h" by auto
          with s' show ?thesis by auto
        next
          case (Continue remaining')
          show ?thesis
          proof (cases "page_after data")
            case (Inl e)
            with Suc.prems g Inr ch it p Continue have "res = Raised e" "hist' = h" by auto
            with s' page_after_local [OF Inl] show ?thesis by (simp add: sends_local)
          next
            case af: (Inr after')
            show ?thesis
            proof (cases "\<not> truthy after' \<or> \<not> truthy children")
              case True
              with Suc.prems g Inr ch it p Continue af have "\<exists>v. res = Done v" "hist' = h"
                by auto
              with s' show ?thesis by auto
            next
              case False
              with Suc.prems g Inr ch it p Continue af
              have "search_loop fuel srv full query after' remaining' acc' h = (res, hist')"
                by auto
              from sends_trans [OF s' Suc.IH [OF this]] show ?thesis .
            qed
          qed
        qed
      qed
    qed
  qed
qed

lemma listing_loop_sends:
  "listing_loop fuel srv lib full p sort_name time_filter after remaining yielded hist = (res, yielded', hist') \<Longrightarrow>
     sends srv hist hist' (res = Raised RedditHTTPError)"
proof (induction fuel arbitrary: after remaining yielded hist)
  case 0
  then show ?case by (auto simp: sends_refl)
next
  case (Suc fuel)
  obtain g h where g: "reddit_get srv p (listing_params sort_name time_filter after remaining) hist = (g, h)"
    by (cases "reddit_get srv p (listing_params sort_name time_filter after remaining) hist") auto
  note s = reddit_get_sends [OF g]
  show ?case
  proof (cases g)
    case (Inl e)
    with Suc.prems g s show ?thesis by auto
  next
    case (Inr data)
    with s have s': "sends srv hist h False" by simp
    show ?thesis
    proof (cases "page_children data")
      case (Inl e)
      with Suc.prems g Inr have "res = Raised e" "hist' = h" by auto
      with s' page_children_local [OF Inl] show ?thesis by (simp add: sends_local)
    next
      case ch: (Inr children)
      show ?thesis
      proof (cases "iter_items children")
        case (Inl e)
        with Suc.prems g Inr ch have "res = Raised e" "hist' = h" by auto
        with s' iter_items_local [OF Inl] show ?thesis by (simp add: sends_local)
      next
        case it: (Inr items)
        obtain pe acc' where p: "listing_page lib full items remaining yielded = (pe, acc')"
          by (cases "listing_page lib full items remaining yielded") auto
        show ?thesis
        proof (cases pe)
          case (Failed e)
          with Suc.prems g Inr ch it p have "res = Raised e" "hist' = h" by auto
          with s' listing_page_local [OF p [unfolded Failed]] show ?thesis by (simp add: sends_local)
        next
          case Returned
          with Suc.prems g Inr ch it p have "\<exists>v. res = Done v" "hist' = h" by auto
          with s' show ?thesis by auto
        next
          case (Continue remaining')
          show ?thesis
          proof (cases "page_after data")
            case (Inl e)
            with Suc.prems g Inr ch it p Continue have "res = Raised e" "hist' = h" by auto
            with s' page_after_local [OF Inl] show ?thesis by (simp add: sends_local)
          next
            case af: (Inr after')
            show ?thesis
            proof (cases "\<not> truthy after' \<or> \<not> truthy children")
              case True
              with Suc.prems g Inr ch it p Continue af have "\<exists>v. res = Done v" "hist' = h"
                by auto
              with s' show ?thesis by auto
            next
              case False
              with Suc.prems g Inr ch it p Continue af
              have "listing_loop fuel srv lib full p sort_name time_filter after' remaining' acc' h = (res, yielded', hist')"
                by auto
              from sends_trans [OF s' Suc.IH [OF this]] show ?thesis .
            qed
          qed
        qed
      qed
    qed
  qed
qed

lemma submission_sends:
  assumes "submission fuel srv lib return_full ident more_limit full hist = (res, hist')"
  shows "sends srv hist hist' (res = Raised RedditHTTPError)"
proof -
  obtain g h where g: "reddit_get srv (''/comments/'' @ ident @ ''.json'') [(''limit'', JNum 500)] hist = (g, h)"
    by (cases "reddit_get srv (''/comments/'' @ ident @ ''.json'') [(''limit'', JNum 500)] hist") auto
  note s = reddit_get_sends [OF g]
  show ?thesis
  proof (cases g)
    case (Inl e)
    with assms g s show ?thesis by (auto simp: submission_def)
  next
    case (Inr raw_json)
    with s have s': "sends srv hist h False" by simp
    show ?thesis
    proof (cases "link_info_of raw_json")
      case (Inl e)
      with assms g Inr have "res = Raised e" "hist' = h" by (auto simp: submission_def)
      with s' link_info_of_local [OF Inl] show ?thesis by (simp add: sends_local)
    next
      case li: (Inr link_info)
      show ?thesis
      proof (cases "comments_listing_of raw_json")
        case (Inl e)
        with assms g Inr li have "res = Raised e" "hist' = h" by (auto simp: submission_def)
        with s' comments_listing_of_local [OF Inl] show ?thesis by (simp add: sends_local)
      next
        case cl: (Inr comments_listing)
        show ?thesis
        proof (cases "submission_fields_of lib link_info")
          case (Inl e)
          with assms g Inr li cl have "res = Raised e" "hist' = h" by (auto simp: submission_def)
          with s' submission_fields_of_local [OF Inl] show ?thesis by (simp add: sends_local)
        next
          case fs: (Inr fs)
          obtain r h2 where f: "flatten_comments fuel srv lib comments_listing
             (link_fullname_of lib link_info (s_id fs)) 0 more_limit h = (r, h2)"
            by (cases "flatten_comments fuel srv lib comments_listing
             (link_fullname_of lib link_info (s_id fs)) 0 more_limit h") auto
          from sends_trans [OF s' flatten_comments_sends [OF f]]
          have "sends srv hist h2 (r = Raised RedditHTTPError)" .
          with assms g Inr li cl fs f show ?thesis
            by (cases r) (auto simp: submission_def)
        qed
      qed
    qed
  qed
qed


lemmas run_defs = reddit_get_def fetch_more_children_def comma_join_def comment_of_def
  parent_linkage_def reply_children_def field_def py_or_def budget_spent_def visit.simps
  flatten_comments_def page_children_def page_after_def page_size_def subreddit_of_def
  listing_params_def resolve_full_def

text \<open>
  Claim C7. A request answered with a non-success status makes \<open>_get\<close> raise the
  transport failure at once, and in a search, a listing and a submission fetch
  (the comment walk and its placeholder expansions included) the requests sent obey:
  if the call ends with the transport failure, the last request sent is the one that
  was refused and no request before it was; otherwise no request was refused. So the
  first refused request is the last request of the call (no retry, nothing after it),
  and the call ends with the failure instead of a result.
\<close>

theorem http_failure_propagates:
  "(srv hist \<lparr>path = p, params = ps\<rparr> = Response False body \<longrightarrow>
      reddit_get srv p ps hist = (Inl RedditHTTPError, hist @ [\<lparr>path = p, params = ps\<rparr>]))
 \<and> (search_subreddits fuel srv return_full query limit full hist = (sres, shist) \<longrightarrow>
      sends srv hist shist (sres = Raised RedditHTTPError))
 \<and> (listing fuel srv lib return_full name sort_name limit time_filter full hist
        = (lres, yielded, lhist) \<longrightarrow>
      sends srv hist lhist (lres = Raised RedditHTTPError))
 \<and> (submission fuel srv lib return_full ident more_limit full hist = (res, hist') \<longrightarrow>
      sends srv hist hist' (res = Raised RedditHTTPError))"
proof -
  have "srv hist \<lparr>path = p, params = ps\<rparr> = Response False body \<Longrightarrow>
      reddit_get srv p ps hist = (Inl RedditHTTPError, hist @ [\<lparr>path = p, params = ps\<rparr>])"
    by (simp add: reddit_get_def)
  moreover have "search_subreddits fuel srv return_full query limit full hist = (sres, shist) \<Longrightarrow>
      sends srv hist shist (sres = Raised RedditHTTPError)"
    unfolding search_subreddits_def by (rule search_loop_sends)
  moreover have "listing fuel srv lib return_full name sort_name limit time_filter full hist
        = (lres, yielded, lhist) \<Longrightarrow> sends srv hist lhist (lres = Raised RedditHTTPError)"
    unfolding listing_def by (rule listing_loop_sends)
  moreover have "submission fuel srv lib return_full ident more_limit full hist = (res, hist') \<Longrightarrow>
      sends srv hist hist' (res = Raised RedditHTTPError)"
    by (rule submission_sends)
  ultimately show ?thesis by blast
qed

theorem http_failure_propagates_witness:
  "reddit_get refusing_server ''/r/pics/hot.json'' [] []
     = (Inl RedditHTTPError, [\<lparr>path = ''/r/pics/hot.json'', params = []\<rparr>])
 \<and> search_subreddits 3 refusing_server False ''cats'' (Some 5) None []
     = (Raised RedditHTTPError,
        [\<lparr>path = ''/subreddits/search.json'',
          params = [(''q'', JStr ''cats''), (''limit'', JNum 5)]\<rparr>])
 \<and> sends refusing_server []
       [\<lparr>path = ''/subreddits/search.json'',
         params = [(''q'', JStr ''cats''), (''limit'', JNum 5)]\<rparr>] True
 \<and> listing 3 refusing_server plain_lib False ''pics'' ''hot'' (Some 5) None None []
     = (Raised RedditHTTPError, [],
        [\<lparr>path = ''/r/pics/hot.json'', params = [(''limit'', JNum 5)]\<rparr>])
 \<and> sends refusing_server []
       [\<lparr>path = ''/r/pics/hot.json'', params = [(''limit'', JNum 5)]\<rparr>] True
 \<and> submission 3 refusing_expansion plain_lib False ''abc'' None None []
     = (Raised RedditHTTPError,
        [\<lparr>path = ''/comments/abc.json'', params = [(''limit'', JNum 500)]\<rparr>,
         \<lparr>path = ''/api/morechildren.json'',
          params = [(''api_type'', JStr ''json''), (''link_id'', JStr ''t3_abc''),
                    (''children'', JStr ''c3,c4''), (''limit_children'', JBool False),
                    (''sort'', JStr ''confidence'')]\<rparr>])
 \<and> sends refusing_expansion []
        [\<lparr>path = ''/comments/abc.json'', params = [(''limit'', JNum 500)]\<rparr>,
         \<lparr>path = ''/api/morechildren.json'',
          params = [(''api_type'', JStr ''json''), (''link_id'', JStr ''t3_abc''),
                    (''children'', JStr ''c3,c4''), (''limit_children'', JBool False),
                    (''sort'', JStr ''confidence'')]\<rparr>] True"
proof -
  have a: "refusing_server [] \<lparr>path = ''/r/pics/hot.json'', params = []\<rparr> = Response False None"
    by (simp add: refusing_server_def)
  have b: "search_subreddits 3 refusing_server False ''cats'' (Some 5) None []
     = (Raised RedditHTTPError,
        [\<lparr>path = ''/subreddits/search.json'',
          params = [(''q'', JStr ''cats''), (''limit'', JNum 5)]\<rparr>])"
    by (simp add: search_subreddits_def refusing_server_def run_defs numeral_3_eq_3)
  have c: "listing 3 refusing_server plain_lib False ''pics'' ''hot'' (Some 5) None None []
     = (Raised RedditHTTPError, [],
        [\<lparr>path = ''/r/pics/hot.json'', params = [(''limit'', JNum 5)]\<rparr>])"
    by (simp add: listing_def refusing_server_def run_defs numeral_3_eq_3)
  have d: "submission 3 refusing_expansion plain_lib False ''abc'' None None []
     = (Raised RedditHTTPError,
        [\<lparr>path = ''/comments/abc.json'', params = [(''limit'', JNum 500)]\<rparr>,
         \<lparr>path = ''/api/morechildren.json'',
          params = [(''api_type'', JStr ''json''), (''link_id'', JStr ''t3_abc''),
                    (''children'', JStr ''c3,c4''), (''limit_children'', JBool False),
                    (''sort'', JStr ''confidence'')]\<rparr>])"
    by (simp add: submission_def refusing_expansion_def sample_thread_def sample_comments_def
        empty_placeholder_def link_info_of_def comments_listing_of_def submission_fields_of_def
        link_fullname_of_def plain_lib_def media_defs run_defs numeral_3_eq_3)
  note t = http_failure_propagates [of refusing_server "[]" "''/r/pics/hot.json''" "[]" None
      3 False "''cats''" "Some 5" None _ _ plain_lib "''pics''" "''hot''" None _ _ _
      "''abc''" None]
  note t2 = http_failure_propagates [where srv = refusing_expansion and fuel = 3
      and lib = plain_lib and return_full = False and ident = "''abc''" and more_limit = None
      and full = None and hist = "[]"]
  from t a b c t2 d show ?thesis by simp
qed

section \<open>The expansion budget\<close>

lemma fetch_more_children_request:
  assumes "fetch_more_children srv link_id ids hist = (r, hist')" and "truthy ids"
  shows "(\<exists>rq. hist' = hist @ [rq] \<and> path rq = ''/api/morechildren.json'')
       \<or> (hist' = hist \<and> (\<exists>e. r = Inl e))"
  using assms
  by (auto simp: fetch_more_children_def reddit_get_def Let_def
      split: sum.splits response.splits option.splits if_splits)

lemma walk_budget_account:
  assumes "walk fuel srv lib link_id more_limit xs d st = (res, st')"
  shows "budget_account more_limit st res st'"
proof (rule walk_visit_invariant(1) [where R = "budget_account more_limit", OF _ _ _ _ _ _ assms])
  fix st :: walk_state
  show "budget_account more_limit st (Done ()) st"
    by (simp add: budget_account_def split: option.splits)
  show "budget_account more_limit st OutOfFuel st"
    by (simp add: budget_account_def split: option.splits)
  show "budget_account more_limit st (Done ()) (st\<lparr>comments := comments st @ [c]\<rparr>)" for c
    by (simp add: budget_account_def split: option.splits)
  show "budget_account more_limit st (Raised e) st" for e
    by (simp add: budget_account_def split: option.splits)
next
  fix st st1 st2 :: walk_state and r :: "unit outcome"
  assume a: "budget_account more_limit st (Done ()) st1"
    and b: "budget_account more_limit st1 r st2"
  from a obtain q1 where q1: "sent st1 = sent st @ q1"
    by (metis append_take_drop_id budget_account_def)
  from b obtain q2 where q2: "sent st2 = sent st1 @ q2"
    by (metis append_take_drop_id budget_account_def)
  from a b q1 q2 show "budget_account more_limit st r st2"
    by (auto simp: budget_account_def split: option.splits outcome.splits)
next
  fix st :: walk_state and ids r hist
  assume nb: "\<not> budget_spent more_limit (more_used st)" and t: "truthy ids"
    and f: "fetch_more_children srv link_id ids (sent st) = (r, hist)"
  from fetch_more_children_request [OF f t] nb
  show "budget_account more_limit st (case r of Inl e \<Rightarrow> Raised e | Inr things \<Rightarrow> Done ())
          (st\<lparr>more_used := more_used st + 1, sent := hist\<rparr>)"
    by (cases r) (auto simp: budget_account_def budget_spent_def split: option.splits)
qed

lemma walk_budget_spent_state:
  assumes "walk fuel srv lib link_id more_limit xs d st = (res, st')"
    and "budget_spent more_limit (more_used st)"
  shows "more_used st' = more_used st \<and> sent st' = sent st"
proof -
  have "budget_spent more_limit (more_used st) \<longrightarrow>
          more_used st' = more_used st \<and> sent st' = sent st"
    by (rule walk_visit_invariant(1) [where R = "\<lambda>st res st'.
          budget_spent more_limit (more_used st) \<longrightarrow>
            more_used st' = more_used st \<and> sent st' = sent st", OF _ _ _ _ _ _ assms(1)])
       auto
  with assms(2) show ?thesis by simp
qed

lemma visit_budget_spent_state:
  assumes "visit fuel srv lib link_id more_limit x d st = (res, st')"
    and "budget_spent more_limit (more_used st)"
  shows "more_used st' = more_used st \<and> sent st' = sent st"
proof -
  have "budget_spent more_limit (more_used st) \<longrightarrow>
          more_used st' = more_used st \<and> sent st' = sent st"
    by (rule walk_visit_invariant(2) [where R = "\<lambda>st res st'.
          budget_spent more_limit (more_used st) \<longrightarrow>
            more_used st' = more_used st \<and> sent st' = sent st", OF _ _ _ _ _ _ assms(1)])
       auto
  with assms(2) show ?thesis by simp
qed

lemma walk_budget_spent:
  "budget_spent more_limit (more_used st) \<Longrightarrow>
     walk fuel srv lib link_id more_limit xs d st = walk fuel srv' lib link_id more_limit xs d st"
  and visit_budget_spent:
  "budget_spent more_limit (more_used st) \<Longrightarrow>
     visit fuel srv lib link_id more_limit x d st = visit fuel srv' lib link_id more_limit x d st"
proof (induction fuel srv lib link_id more_limit xs d st and fuel srv lib link_id more_limit x d st
    rule: walk_visit.induct)
  case (1 fuel srv lib link_id more_limit depth_inner st)
  show ?case by simp
next
  case (2 fuel srv lib link_id more_limit child rest depth_inner st)
  obtain r1 st1 where v: "visit fuel srv lib link_id more_limit child depth_inner st = (r1, st1)"
    by (cases "visit fuel srv lib link_id more_limit child depth_inner st") auto
  from "2.IH"(1) [OF "2.prems"] v
  have v': "visit fuel srv' lib link_id more_limit child depth_inner st = (r1, st1)" by simp
  from visit_budget_spent_state [OF v "2.prems"] "2.prems"
  have sp1: "budget_spent more_limit (more_used st1)" by simp
  show ?case
  proof (cases r1)
    case (Done u)
    from "2.IH"(2) [OF v [symmetric] Done sp1] v v' Done show ?thesis by simp
  next
    case (Raised e)
    with v v' show ?thesis by simp
  next
    case OutOfFuel
    with v v' show ?thesis by simp
  qed
next
  case (3 fuel srv lib link_id more_limit child depth_inner st)
  note sp = "3.prems"
  show ?case
  proof (cases "dict_get child ''kind'' JNull")
    case (Inl e)
    then show ?thesis by (simp add: visit.simps)
  next
    case k: (Inr kind)
    show ?thesis
    proof (cases "dict_get child ''data'' (JObj [])")
      case (Inl e)
      with k show ?thesis by (simp add: visit.simps)
    next
      case dt: (Inr data)
      show ?thesis
      proof (cases "kind = JStr ''t1''")
        case False
        with k dt sp show ?thesis by (simp add: visit.simps)
      next
        case t1: True
        show ?thesis
        proof (cases "comment_of lib data depth_inner")
          case (Inl e)
          with k dt t1 show ?thesis by (simp add: visit.simps)
        next
          case c: (Inr c)
          define st1 where "st1 = st\<lparr>comments := comments st @ [c]\<rparr>"
          show ?thesis
          proof (cases "reply_children data")
            case (Inl e)
            with k dt t1 c show ?thesis by (simp add: visit.simps)
          next
            case rc: (Inr ro)
            show ?thesis
            proof (cases ro)
              case None
              with k dt t1 c rc show ?thesis by (simp add: visit.simps)
            next
              case (Some replies)
              show ?thesis
              proof (cases fuel)
                case 0
                with k dt t1 c rc Some show ?thesis by (simp add: visit.simps)
              next
                case (Suc f)
                show ?thesis
                proof (cases "iter_items replies")
                  case (Inl e)
                  with k dt t1 c rc Some Suc show ?thesis by (simp add: visit.simps)
                next
                  case it: (Inr items)
                  from sp have "budget_spent more_limit (more_used st1)" by (simp add: st1_def)
                  from "3.IH"(1) [OF k dt t1 c st1_def rc Some Suc it this]
                  show ?thesis using k dt t1 c rc Some Suc it by (simp add: st1_def visit.simps)
                qed
              qed
            qed
          qed
        qed
      qed
    qed
  qed
qed

lemma walk_more_used_mono:
  "walk fuel srv lib link_id more_limit xs d st = (res, st') \<Longrightarrow> more_used st \<le> more_used st'"
  using walk_budget_account by (auto simp: budget_account_def)

lemma visit_more_used_mono:
  assumes "visit fuel srv lib link_id more_limit x d st = (res, st')"
  shows "more_used st \<le> more_used st'"
  by (rule walk_visit_invariant(2) [where R = "\<lambda>st res st'. more_used st \<le> more_used st'",
        OF _ _ _ _ _ _ assms]) auto

lemma walk_unlimited:
  "walk fuel srv lib link_id more_limit xs d st = (res, st') \<Longrightarrow> more_limit = None \<Longrightarrow>
     more_used st' < k \<Longrightarrow> walk fuel srv lib link_id (Some k) xs d st = (res, st')"
  and visit_unlimited:
  "visit fuel srv lib link_id more_limit x d st = (res, st') \<Longrightarrow> more_limit = None \<Longrightarrow>
     more_used st' < k \<Longrightarrow> visit fuel srv lib link_id (Some k) x d st = (res, st')"
proof (induction fuel srv lib link_id more_limit xs d st and fuel srv lib link_id more_limit x d st
    arbitrary: res st' and res st' rule: walk_visit.induct)
  case (1 fuel srv lib link_id more_limit depth_inner st)
  then show ?case by simp
next
  case (2 fuel srv lib link_id more_limit child rest depth_inner st)
  note run = "2.prems"(1) and none = "2.prems"(2) and lt = "2.prems"(3)
  obtain r1 st1 where v: "visit fuel srv lib link_id more_limit child depth_inner st = (r1, st1)"
    by (cases "visit fuel srv lib link_id more_limit child depth_inner st") auto
  show ?case
  proof (cases r1)
    case (Done u)
    with v run have w: "walk fuel srv lib link_id more_limit rest depth_inner st1 = (res, st')"
      by simp
    from walk_more_used_mono [OF w] lt have lt1: "more_used st1 < k" by simp
    from "2.IH"(1) [OF v none lt1]
    have v': "visit fuel srv lib link_id (Some k) child depth_inner st = (r1, st1)" .
    from "2.IH"(2) [OF v [symmetric] Done w none lt]
    have "walk fuel srv lib link_id (Some k) rest depth_inner st1 = (res, st')" .
    with v' Done show ?thesis by simp
  next
    case (Raised e)
    with v run have eq: "res = r1" "st' = st1" by simp_all
    from "2.IH"(1) [OF v none] lt eq
    have "visit fuel srv lib link_id (Some k) child depth_inner st = (r1, st1)" by simp
    with eq Raised show ?thesis by simp
  next
    case OutOfFuel
    with v run have eq: "res = r1" "st' = st1" by simp_all
    from "2.IH"(1) [OF v none] lt eq
    have "visit fuel srv lib link_id (Some k) child depth_inner st = (r1, st1)" by simp
    with eq OutOfFuel show ?thesis by simp
  qed
next
  case (3 fuel srv lib link_id more_limit child depth_inner st)
  note run0 = "3.prems"(1) and none = "3.prems"(2) and lt = "3.prems"(3)
  note run = run0 [unfolded visit.simps]
  from visit_more_used_mono [OF run0] lt have lt0: "more_used st < k" by simp
  then have nb': "\<not> budget_spent (Some k) (more_used st)" by (simp add: budget_spent_def)
  from none have nb: "\<not> budget_spent more_limit (more_used st)" by (simp add: budget_spent_def)
  show ?case
  proof (cases "dict_get child ''kind'' JNull")
    case (Inl e)
    with run show ?thesis by (simp add: visit.simps)
  next
    case k: (Inr kind)
    show ?thesis
    proof (cases "dict_get child ''data'' (JObj [])")
      case (Inl e)
      with run k show ?thesis by (simp add: visit.simps)
    next
      case dt: (Inr data)
      consider (t1) "kind = JStr ''t1''"
        | (more) "kind \<noteq> JStr ''t1''" "kind = JStr ''more''"
        | (other) "kind \<noteq> JStr ''t1''" "kind \<noteq> JStr ''more''"
        by blast
      then show ?thesis
      proof cases
        case t1
        show ?thesis
        proof (cases "comment_of lib data depth_inner")
          case (Inl e)
          with run k dt t1 show ?thesis by (simp add: visit.simps)
        next
          case c: (Inr c)
          define st1 where "st1 = st\<lparr>comments := comments st @ [c]\<rparr>"
          show ?thesis
          proof (cases "reply_children data")
            case (Inl e)
            with run k dt t1 c show ?thesis by (simp add: visit.simps)
          next
            case rc: (Inr ro)
            show ?thesis
            proof (cases ro)
              case None
              with run k dt t1 c rc show ?thesis by (simp add: visit.simps)
            next
              case (Some replies)
              show ?thesis
              proof (cases fuel)
                case 0
                with run k dt t1 c rc Some show ?thesis by (simp add: visit.simps)
              next
                case (Suc f)
                show ?thesis
                proof (cases "iter_items replies")
                  case (Inl e)
                  with run k dt t1 c rc Some Suc show ?thesis by (simp add: visit.simps)
                next
                  case it: (Inr items)
                  from run k dt t1 c rc Some Suc it
                  have w: "walk f srv lib link_id more_limit items (depth_inner + 1) st1 = (res, st')"
                    by (simp add: st1_def)
                  from "3.IH"(1) [OF k dt t1 c st1_def rc Some Suc it w none lt]
                  show ?thesis using k dt t1 c rc Some Suc it by (simp add: st1_def visit.simps)
                qed
              qed
            qed
          qed
        qed
      next
        case more
        show ?thesis
        proof (cases "dict_get data ''children'' JNull")
          case (Inl e)
          with run k dt more nb nb' show ?thesis by (simp add: visit.simps)
        next
          case ch: (Inr ch)
          define ids where "ids = py_or ch (JArr [])"
          show ?thesis
          proof (cases "truthy ids")
            case False
            with run k dt more nb nb' ch show ?thesis by (simp add: ids_def visit.simps)
          next
            case tr: True
            define st1 where "st1 = st\<lparr>more_used := more_used st + 1\<rparr>"
            obtain r hist where f: "fetch_more_children srv link_id ids (sent st1) = (r, hist)"
              by (cases "fetch_more_children srv link_id ids (sent st1)") auto
            define st2 where "st2 = st1\<lparr>sent := hist\<rparr>"
            show ?thesis
            proof (cases r)
              case (Inl e)
              with run k dt more nb nb' ch tr f show ?thesis
                by (simp add: ids_def st1_def visit.simps)
            next
              case things: (Inr things)
              show ?thesis
              proof (cases "truthy things")
                case False
                with run k dt more nb nb' ch tr f things show ?thesis
                  by (simp add: ids_def st1_def visit.simps)
              next
                case tt: True
                show ?thesis
                proof (cases fuel)
                  case 0
                  with run k dt more nb nb' ch tr f things tt show ?thesis
                    by (simp add: ids_def st1_def visit.simps)
                next
                  case (Suc f')
                  show ?thesis
                  proof (cases "iter_items things")
                    case (Inl e)
                    with run k dt more nb nb' ch tr f things tt Suc show ?thesis
                      by (simp add: ids_def st1_def visit.simps)
                  next
                    case it: (Inr items)
                    from run k dt more nb ch tr f things tt Suc it
                    have w: "walk f' srv lib link_id more_limit items depth_inner st2 = (res, st')"
                      by (simp add: ids_def st1_def st2_def)
                    have nn: "\<not> \<not> truthy ids" using tr by simp
                    from "3.IH"(2) [OF k dt more nb ch ids_def nn st1_def f [symmetric]
                              things st2_def tt Suc it w none lt]
                    show ?thesis using k dt more nb' ch tr f things tt Suc it
                      by (simp add: ids_def st1_def st2_def visit.simps)
                  qed
                qed
              qed
            qed
          qed
        qed
      next
        case other
        with run k dt show ?thesis by (simp add: visit.simps)
      qed
    qed
  qed
qed


lemma flatten_comments_budget:
  assumes "flatten_comments fuel srv lib children link_id d (Some k) hist = (res, hist')"
  shows "take (length hist) hist' = hist
       \<and> list_all (\<lambda>rq. path rq = ''/api/morechildren.json'') (drop (length hist) hist')
       \<and> int (length hist') - int (length hist) \<le> max 0 k"
proof (cases "iter_items children")
  case (Inl e)
  with assms show ?thesis by (simp add: flatten_comments_def)
next
  case (Inr items)
  obtain r st where w: "walk fuel srv lib link_id (Some k) items d
      \<lparr>comments = [], more_used = 0, sent = hist\<rparr> = (r, st)"
    by (cases "walk fuel srv lib link_id (Some k) items d
      \<lparr>comments = [], more_used = 0, sent = hist\<rparr>") auto
  from assms Inr w have h: "hist' = sent st"
    by (cases r) (simp_all add: flatten_comments_def)
  from walk_budget_account [OF w] h show ?thesis
    by (simp add: budget_account_def)
qed

lemma flatten_comments_no_budget:
  assumes "k \<le> 0"
  shows "flatten_comments fuel srv lib children link_id d (Some k) hist
       = (fst (flatten_comments fuel srv' lib children link_id d (Some k) hist), hist)"
proof (cases "iter_items children")
  case (Inl e)
  then show ?thesis by (simp add: flatten_comments_def)
next
  case (Inr items)
  define st0 where "st0 = \<lparr>comments = [], more_used = 0, sent = hist\<rparr>"
  from assms have sp: "budget_spent (Some k) (more_used st0)"
    by (simp add: budget_spent_def st0_def)
  obtain r st where w: "walk fuel srv lib link_id (Some k) items d st0 = (r, st)"
    by (cases "walk fuel srv lib link_id (Some k) items d st0") auto
  from walk_budget_spent [OF sp, of fuel srv lib link_id items d srv'] w
  have w': "walk fuel srv' lib link_id (Some k) items d st0 = (r, st)" by simp
  from walk_budget_spent_state [OF w sp] have "sent st = hist" by (simp add: st0_def)
  with Inr w w' show ?thesis
    by (cases r) (simp_all add: flatten_comments_def st0_def [symmetric])
qed

text \<open>
  Claim C2. With a finite budget \<open>k\<close> the walk never counts more than \<open>k\<close> expansions
  (from a counter below \<open>k\<close>) and a flattening sends at most \<open>k\<close> requests, all of them
  expansion requests; with a budget of zero or less it sends none and its outcome
  does not depend on the service, so every comment comes from the initial tree. An
  expansion sends one request that carries the whole group of child IDs, and in a
  walk that does not raise the units used are exactly the requests sent, one per
  expanded placeholder. Without a budget the walk is the walk under any finite budget
  that it stays below.
\<close>

theorem expansion_budget:
  "(walk fuel srv lib link_id (Some k) xs d st = (res, st') \<longrightarrow>
      more_used st' \<le> max (more_used st) k)
 \<and> (flatten_comments fuel srv lib children link_id d (Some k) hist = (fres, hist') \<longrightarrow>
      take (length hist) hist' = hist
      \<and> list_all (\<lambda>rq. path rq = ''/api/morechildren.json'') (drop (length hist) hist')
      \<and> int (length hist') - int (length hist) \<le> max 0 k)
 \<and> (k \<le> 0 \<longrightarrow>
      flatten_comments fuel srv lib children link_id d (Some k) hist
        = (fst (flatten_comments fuel srv' lib children link_id d (Some k) hist), hist))
 \<and> (truthy ids \<and> comma_join ids = Inr joined \<longrightarrow>
      snd (fetch_more_children srv link_id ids hist)
        = hist @ [\<lparr>path = ''/api/morechildren.json'',
                   params = [(''api_type'', JStr ''json''), (''link_id'', link_id),
                             (''children'', JStr joined), (''limit_children'', JBool False),
                             (''sort'', JStr ''confidence'')]\<rparr>])
 \<and> (walk fuel srv lib link_id more_limit xs d st = (res, st') \<and> (\<forall>e. res \<noteq> Raised e) \<longrightarrow>
      more_used st' - more_used st = int (length (sent st')) - int (length (sent st)))
 \<and> (walk fuel srv lib link_id None xs d st = (res, st') \<and> more_used st' < k \<longrightarrow>
      walk fuel srv lib link_id (Some k) xs d st = (res, st'))"
proof -
  have "walk fuel srv lib link_id (Some k) xs d st = (res, st') \<Longrightarrow>
      more_used st' \<le> max (more_used st) k"
    using walk_budget_account [of fuel srv lib link_id "Some k" xs d st res st']
    by (simp add: budget_account_def)
  moreover have "truthy ids \<Longrightarrow> comma_join ids = Inr joined \<Longrightarrow>
      snd (fetch_more_children srv link_id ids hist)
        = hist @ [\<lparr>path = ''/api/morechildren.json'',
                   params = [(''api_type'', JStr ''json''), (''link_id'', link_id),
                             (''children'', JStr joined), (''limit_children'', JBool False),
                             (''sort'', JStr ''confidence'')]\<rparr>]"
    by (simp add: fetch_more_children_def reddit_get_def Let_def
        split: response.splits option.splits sum.splits)
  moreover have "walk fuel srv lib link_id more_limit xs d st = (res, st') \<Longrightarrow>
      \<forall>e. res \<noteq> Raised e \<Longrightarrow>
      more_used st' - more_used st = int (length (sent st')) - int (length (sent st))"
    using walk_budget_account [of fuel srv lib link_id more_limit xs d st res st']
    by (cases res) (simp_all add: budget_account_def)
  ultimately show ?thesis
    using flatten_comments_budget [of fuel srv lib children link_id d k hist fres hist']
      flatten_comments_no_budget [of k fuel srv lib children link_id d hist srv']
      walk_unlimited [of fuel srv lib link_id None xs d st res st' k]
    by blast
qed

lemmas sample_defs = sample_comments_def empty_placeholder_def sample_things_def
  expanding_server_def plain_lib_def sample_record_def expansion_request_def

lemma sample_flatten_one:
  "flatten_comments 3 expanding_server plain_lib sample_comments (JStr ''t3_abc'') 0 (Some 1) []
     = (Done [sample_record ''c1'' ''t3_abc'' None True 0,
              sample_record ''c2'' ''t1_c1'' (Some ''c1'') False 1,
              sample_record ''c3'' ''t1_c1'' (Some ''c1'') False 1],
        [expansion_request])"
  by (simp add: sample_defs run_defs numeral_3_eq_3)

lemma sample_flatten_zero:
  "flatten_comments 3 expanding_server plain_lib sample_comments (JStr ''t3_abc'') 0 (Some 0) []
     = (Done [sample_record ''c1'' ''t3_abc'' None True 0,
              sample_record ''c2'' ''t1_c1'' (Some ''c1'') False 1],
        [])"
  by (simp add: sample_defs run_defs numeral_3_eq_3)

lemma sample_walk_unlimited:
  "walk 3 expanding_server plain_lib (JStr ''t3_abc'') None
      (case sample_comments of JArr xs \<Rightarrow> xs | _ \<Rightarrow> []) 0
      \<lparr>comments = [], more_used = 0, sent = []\<rparr>
     = (Done (),
        \<lparr>comments = [sample_record ''c1'' ''t3_abc'' None True 0,
                     sample_record ''c2'' ''t1_c1'' (Some ''c1'') False 1,
                     sample_record ''c3'' ''t1_c1'' (Some ''c1'') False 1],
         more_used = 1, sent = [expansion_request]\<rparr>)"
  by (simp add: sample_defs run_defs numeral_3_eq_3)

theorem expansion_budget_witness:
  "flatten_comments 3 expanding_server plain_lib sample_comments (JStr ''t3_abc'') 0 (Some 1) []
     = (Done [sample_record ''c1'' ''t3_abc'' None True 0,
              sample_record ''c2'' ''t1_c1'' (Some ''c1'') False 1,
              sample_record ''c3'' ''t1_c1'' (Some ''c1'') False 1],
        [expansion_request])
 \<and> int (length [expansion_request]) - int (length ([] :: request list)) \<le> max 0 1
 \<and> flatten_comments 3 refusing_server plain_lib sample_comments (JStr ''t3_abc'') 0 (Some 0) []
     = (Done [sample_record ''c1'' ''t3_abc'' None True 0,
              sample_record ''c2'' ''t1_c1'' (Some ''c1'') False 1],
        [])
 \<and> snd (fetch_more_children expanding_server (JStr ''t3_abc'')
            (JArr [JStr ''c3'', JStr ''c4'']) [])
     = [expansion_request]
 \<and> walk 3 expanding_server plain_lib (JStr ''t3_abc'') (Some 5)
      (case sample_comments of JArr xs \<Rightarrow> xs | _ \<Rightarrow> []) 0
      \<lparr>comments = [], more_used = 0, sent = []\<rparr>
     = (Done (),
        \<lparr>comments = [sample_record ''c1'' ''t3_abc'' None True 0,
                     sample_record ''c2'' ''t1_c1'' (Some ''c1'') False 1,
                     sample_record ''c3'' ''t1_c1'' (Some ''c1'') False 1],
         more_used = 1, sent = [expansion_request]\<rparr>)"
proof -
  note one = sample_flatten_one and zero = sample_flatten_zero and unl = sample_walk_unlimited
  have a: "int (length [expansion_request]) - int (length ([] :: request list)) \<le> max 0 1"
    using expansion_budget [where fuel = 3 and srv = expanding_server and lib = plain_lib
        and children = sample_comments and link_id = "JStr ''t3_abc''" and d = 0 and k = 1
        and hist = "[]" and fres = "Done [sample_record ''c1'' ''t3_abc'' None True 0,
              sample_record ''c2'' ''t1_c1'' (Some ''c1'') False 1,
              sample_record ''c3'' ''t1_c1'' (Some ''c1'') False 1]"
        and hist' = "[expansion_request]"] one
    by simp
  have b: "flatten_comments 3 refusing_server plain_lib sample_comments (JStr ''t3_abc'') 0
        (Some 0) []
     = (Done [sample_record ''c1'' ''t3_abc'' None True 0,
              sample_record ''c2'' ''t1_c1'' (Some ''c1'') False 1],
        [])"
    using expansion_budget [where fuel = 3 and srv = refusing_server and lib = plain_lib
        and children = sample_comments and link_id = "JStr ''t3_abc''" and d = 0 and k = 0
        and hist = "[]" and srv' = expanding_server] zero
    by simp
  have j: "truthy (JArr [JStr ''c3'', JStr ''c4''])
      \<and> comma_join (JArr [JStr ''c3'', JStr ''c4'']) = Inr ''c3,c4''"
    by (simp add: comma_join_def)
  have c: "snd (fetch_more_children expanding_server (JStr ''t3_abc'')
            (JArr [JStr ''c3'', JStr ''c4'']) [])
     = [expansion_request]"
    using expansion_budget [where ids = "JArr [JStr ''c3'', JStr ''c4'']" and joined = "''c3,c4''"
        and srv = expanding_server and link_id = "JStr ''t3_abc''" and hist = "[]"] j
    by (simp add: expansion_request_def)
  have d: "walk 3 expanding_server plain_lib (JStr ''t3_abc'') (Some 5)
      (case sample_comments of JArr xs \<Rightarrow> xs | _ \<Rightarrow> []) 0
      \<lparr>comments = [], more_used = 0, sent = []\<rparr>
     = (Done (),
        \<lparr>comments = [sample_record ''c1'' ''t3_abc'' None True 0,
                     sample_record ''c2'' ''t1_c1'' (Some ''c1'') False 1,
                     sample_record ''c3'' ''t1_c1'' (Some ''c1'') False 1],
         more_used = 1, sent = [expansion_request]\<rparr>)"
    using expansion_budget [where fuel = 3 and srv = expanding_server and lib = plain_lib
        and link_id = "JStr ''t3_abc''" and k = 5
        and xs = "(case sample_comments of JArr xs \<Rightarrow> xs | _ \<Rightarrow> [])" and d = 0
        and st = "\<lparr>comments = [], more_used = 0, sent = []\<rparr>" and res = "Done ()"
        and st' = "\<lparr>comments = [sample_record ''c1'' ''t3_abc'' None True 0,
                     sample_record ''c2'' ''t1_c1'' (Some ''c1'') False 1,
                     sample_record ''c3'' ''t1_c1'' (Some ''c1'') False 1],
         more_used = 1, sent = [expansion_request]\<rparr>"] unl
    by simp
  from one a b c d show ?thesis by simp
qed


section \<open>Depth of the comment records\<close>


lemma to_state_simps [simp]:
  "more_used (to_state depth pst) = expansions pst"
  "sent (to_state depth pst) = requests pst"
  "comments (to_state depth pst) = with_depths depth (visited pst)"
  by (simp_all add: to_state_def)








section \<open>The \<^verbatim>\<open>full\<close> flag\<close>

lemma subreddit_of_without_raw:
  "subreddit_of False child = map_sum id without_raw (subreddit_of full child)"
  by (simp add: subreddit_of_def without_raw_def split: sum.splits)

lemma subreddit_of_raw:
  "subreddit_of full child = Inr r \<Longrightarrow> has_raw r = full"
  by (auto simp: subreddit_of_def has_raw_def split: sum.splits if_splits)

lemma search_page_without_raw:
  "search_page False items remaining (map without_raw results)
     = map_prod id (map without_raw) (search_page full items remaining results)"
proof (induction items arbitrary: remaining results)
  case Nil
  show ?case by simp
next
  case (Cons child rest)
  show ?case
  proof (cases "subreddit_of full child")
    case (Inl e)
    then show ?thesis by (simp add: subreddit_of_without_raw [of child full])
  next
    case (Inr r)
    then have f: "subreddit_of False child = Inr (without_raw r)"
      by (simp add: subreddit_of_without_raw [of child full])
    show ?thesis
      using Cons.IH [of _ "results @ [r]"] Inr f
      by (simp split: option.splits)
  qed
qed

lemma search_page_raw:
  "search_page full items remaining results = (pe, results') \<Longrightarrow>
   list_all (\<lambda>r. has_raw r = full) results \<Longrightarrow>
   list_all (\<lambda>r. has_raw r = full) results'"
proof (induction items arbitrary: remaining results)
  case Nil
  then show ?case by simp
next
  case (Cons child rest)
  show ?case
  proof (cases "subreddit_of full child")
    case (Inl e)
    with Cons.prems show ?thesis by simp
  next
    case (Inr r)
    from subreddit_of_raw [OF Inr] Cons.prems(2)
    have "list_all (\<lambda>r. has_raw r = full) (results @ [r])" by simp
    with Cons.prems(1) Inr Cons.IH [of _ "results @ [r]"] show ?thesis
      by (auto split: option.splits if_splits)
  qed
qed

lemma search_loop_without_raw:
  "search_loop fuel srv False query after remaining (map without_raw results) hist
     = map_prod (map_outcome (map without_raw)) id
         (search_loop fuel srv full query after remaining results hist)"
proof (induction fuel arbitrary: after remaining results hist)
  case 0
  show ?case by simp
next
  case (Suc fuel)
  show ?case
    using Suc.IH
    by (simp add: search_page_without_raw [of _ _ _ full]
        split: prod.splits sum.splits page_end.splits)
qed

lemma search_loop_raw:
  "search_loop fuel srv full query after remaining results hist = (Done rs, hist') \<Longrightarrow>
   list_all (\<lambda>r. has_raw r = full) results \<Longrightarrow>
   list_all (\<lambda>r. has_raw r = full) rs"
proof (induction fuel arbitrary: after remaining results hist)
  case 0
  then show ?case by simp
next
  case (Suc fuel)
  from Suc.prems show ?case
    by (auto split: prod.splits sum.splits page_end.splits if_splits
        dest: search_page_raw intro: Suc.IH)
qed


lemma submission_item_without_raw:
  "\<lparr>item_fields = fs, raw = None\<rparr> = item_without_raw \<lparr>item_fields = fs, raw = x\<rparr>"
  by (simp add: item_without_raw_def)

lemma listing_page_without_raw:
  "listing_page lib False items remaining (map item_without_raw yielded)
     = map_prod id (map item_without_raw) (listing_page lib full items remaining yielded)"
proof (induction items arbitrary: remaining yielded)
  case Nil
  show ?case by simp
next
  case (Cons child rest)
  show ?case
  proof (cases "dict_get child ''kind'' JNull")
    case (Inl e)
    then show ?thesis by simp
  next
    case k: (Inr kind)
    show ?thesis
    proof (cases "kind = JStr ''t3''")
      case False
      with k Cons.IH show ?thesis by simp
    next
      case True
      show ?thesis
      proof (cases "subscript child ''data''")
        case (Inl e)
        with k True show ?thesis by simp
      next
        case i: (Inr info)
        show ?thesis
        proof (cases "submission_fields_of lib info")
          case (Inl e)
          with k True i show ?thesis by simp
        next
          case f: (Inr fs)
          define item where "item = \<lparr>item_fields = fs, raw = (if full then Some info else None)\<rparr>"
          have w: "\<lparr>item_fields = fs, raw = None\<rparr> = item_without_raw item"
            by (simp add: item_def item_without_raw_def)
          show ?thesis
            using k True i f Cons.IH [of _ "yielded @ [item]"] w
            by (simp add: item_def [symmetric] Let_def split: option.splits)
        qed
      qed
    qed
  qed
qed

lemma listing_page_raw:
  "listing_page lib full items remaining yielded = (pe, yielded') \<Longrightarrow>
   list_all (\<lambda>i. item_has_raw i = full) yielded \<Longrightarrow>
   list_all (\<lambda>i. item_has_raw i = full) yielded'"
proof (induction items arbitrary: remaining yielded)
  case Nil
  then show ?case by simp
next
  case (Cons child rest)
  show ?case
  proof (cases "dict_get child ''kind'' JNull")
    case (Inl e)
    with Cons.prems show ?thesis by simp
  next
    case k: (Inr kind)
    show ?thesis
    proof (cases "kind = JStr ''t3''")
      case False
      with k Cons.prems Cons.IH show ?thesis by simp
    next
      case True
      show ?thesis
      proof (cases "subscript child ''data''")
        case (Inl e)
        with k True Cons.prems show ?thesis by simp
      next
        case i: (Inr info)
        show ?thesis
        proof (cases "submission_fields_of lib info")
          case (Inl e)
          with k True i Cons.prems show ?thesis by simp
        next
          case f: (Inr fs)
          define item where "item = \<lparr>item_fields = fs, raw = (if full then Some info else None)\<rparr>"
          have "item_has_raw item = full" by (simp add: item_def item_has_raw_def)
          with Cons.prems(2) have a: "list_all (\<lambda>i. item_has_raw i = full) (yielded @ [item])"
            by simp
          show ?thesis
            using k True i f Cons.prems(1) Cons.IH [OF _ a] a
            by (auto simp: item_def [symmetric] Let_def split: option.splits if_splits)
        qed
      qed
    qed
  qed
qed

lemma listing_loop_without_raw:
  "listing_loop fuel srv lib False p sort_name time_filter after remaining
       (map item_without_raw yielded) hist
     = (case listing_loop fuel srv lib full p sort_name time_filter after remaining yielded hist of
          (res, ys, h) \<Rightarrow> (res, map item_without_raw ys, h))"
proof (induction fuel arbitrary: after remaining yielded hist)
  case 0
  show ?case by simp
next
  case (Suc fuel)
  show ?case
    using Suc.IH
    by (simp add: listing_page_without_raw [of _ _ _ _ full]
        split: prod.splits sum.splits page_end.splits)
qed

lemma listing_loop_raw:
  "listing_loop fuel srv lib full p sort_name time_filter after remaining yielded hist
      = (res, ys, hist') \<Longrightarrow>
   list_all (\<lambda>i. item_has_raw i = full) yielded \<Longrightarrow>
   list_all (\<lambda>i. item_has_raw i = full) ys"
proof (induction fuel arbitrary: after remaining yielded hist)
  case 0
  then show ?case by simp
next
  case (Suc fuel)
  from Suc.prems show ?case
    by (auto split: prod.splits sum.splits page_end.splits if_splits
        dest: listing_page_raw intro: Suc.IH)
qed


lemma submission_without_raw_eq:
  "submission fuel srv lib return_full' ident more_limit (Some False) hist
     = map_prod (map_outcome submission_without_raw) id
         (submission fuel srv lib return_full ident more_limit full hist)"
  by (simp add: submission_def resolve_full_def submission_without_raw_def
      split: prod.splits sum.splits outcome.splits)

lemma submission_raw:
  "submission fuel srv lib return_full ident more_limit full hist = (Done r, h) \<Longrightarrow>
     (raw_response r \<noteq> None) = resolve_full full return_full
   \<and> (raw_link r \<noteq> None) = resolve_full full return_full
   \<and> (raw_comments_listing r \<noteq> None) = resolve_full full return_full"
  by (auto simp: submission_def split: prod.splits sum.splits outcome.splits if_splits)

text \<open>
  Claim C6. The flag is resolved the same way at every entry point: an explicit value
  wins, otherwise the client-wide default applies. In the records of a search, of a
  listing and of a submission fetch the raw fields are present exactly when the
  resolved flag is true, and a call with the flag off gives what any other call
  gives once the raw fields are removed: the same outcome, the same requests and the
  same values in every other field.
\<close>

theorem raw_attached_iff_full:
  "resolve_full (Some b) return_full = b
 \<and> resolve_full None return_full = return_full
 \<and> (search_subreddits fuel srv return_full query limit full hist = (Done rs, h1) \<longrightarrow>
      list_all (\<lambda>r. has_raw r = resolve_full full return_full) rs)
 \<and> search_subreddits fuel srv return_full' query limit (Some False) hist
     = map_prod (map_outcome (map without_raw)) id
         (search_subreddits fuel srv return_full query limit full hist)
 \<and> (listing fuel srv lib return_full name sort_name limit time_filter full hist = (lres, ys, h2)
      \<longrightarrow> list_all (\<lambda>i. item_has_raw i = resolve_full full return_full) ys)
 \<and> listing fuel srv lib return_full' name sort_name limit time_filter (Some False) hist
     = (case listing fuel srv lib return_full name sort_name limit time_filter full hist of
          (res, ys, h) \<Rightarrow> (res, map item_without_raw ys, h))
 \<and> (submission fuel srv lib return_full ident more_limit full hist = (Done r, h3) \<longrightarrow>
        (raw_response r \<noteq> None) = resolve_full full return_full
      \<and> (raw_link r \<noteq> None) = resolve_full full return_full
      \<and> (raw_comments_listing r \<noteq> None) = resolve_full full return_full)
 \<and> submission fuel srv lib return_full' ident more_limit (Some False) hist
     = map_prod (map_outcome submission_without_raw) id
         (submission fuel srv lib return_full ident more_limit full hist)"
proof -
  have "search_subreddits fuel srv return_full query limit full hist = (Done rs, h1) \<Longrightarrow>
      list_all (\<lambda>r. has_raw r = resolve_full full return_full) rs"
    using search_loop_raw [of fuel srv "resolve_full full return_full" query JNull limit "[]"
        hist rs h1]
    by (simp add: search_subreddits_def)
  moreover have "search_subreddits fuel srv return_full' query limit (Some False) hist
     = map_prod (map_outcome (map without_raw)) id
         (search_subreddits fuel srv return_full query limit full hist)"
    using search_loop_without_raw [of fuel srv query JNull limit "[]" hist
        "resolve_full full return_full"]
    by (simp add: search_subreddits_def resolve_full_def)
  moreover have "listing fuel srv lib return_full name sort_name limit time_filter full hist
        = (lres, ys, h2) \<Longrightarrow> list_all (\<lambda>i. item_has_raw i = resolve_full full return_full) ys"
    using listing_loop_raw [of fuel srv lib "resolve_full full return_full"
        "''/r/'' @ name @ ''/'' @ sort_name @ ''.json''" sort_name time_filter JNull limit "[]"
        hist lres ys h2]
    by (simp add: listing_def)
  moreover have "listing fuel srv lib return_full' name sort_name limit time_filter (Some False) hist
     = (case listing fuel srv lib return_full name sort_name limit time_filter full hist of
          (res, ys, h) \<Rightarrow> (res, map item_without_raw ys, h))"
    using listing_loop_without_raw [of fuel srv lib "''/r/'' @ name @ ''/'' @ sort_name @ ''.json''"
        sort_name time_filter JNull limit "[]" hist "resolve_full full return_full"]
    by (simp add: listing_def resolve_full_def)
  ultimately show ?thesis
    using submission_raw [of fuel srv lib return_full ident more_limit full hist r h3]
      submission_without_raw_eq [of fuel srv lib return_full' ident more_limit hist return_full full]
    by (simp add: resolve_full_def)
qed

theorem raw_attached_iff_full_witness:
  "search_subreddits 2 (page_server sample_search_page) False ''cats'' (Some 5) (Some True) []
     = (Done [cats_record\<lparr>sr_raw :=
                 Some (JObj [(''id'', JStr ''s1''), (''display_name'', JStr ''cats'')])\<rparr>],
        [\<lparr>path = ''/subreddits/search.json'',
          params = [(''q'', JStr ''cats''), (''limit'', JNum 5)]\<rparr>])
 \<and> has_raw (cats_record\<lparr>sr_raw :=
                 Some (JObj [(''id'', JStr ''s1''), (''display_name'', JStr ''cats'')])\<rparr>)
 \<and> search_subreddits 2 (page_server sample_search_page) True ''cats'' (Some 5) (Some False) []
     = (Done [cats_record],
        [\<lparr>path = ''/subreddits/search.json'',
          params = [(''q'', JStr ''cats''), (''limit'', JNum 5)]\<rparr>])
 \<and> listing 2 (page_server sample_listing_page) plain_lib True ''pics'' ''hot'' (Some 5) None None []
     = (Done (), [\<lparr>item_fields = png_record, raw = Some png_link\<rparr>],
        [\<lparr>path = ''/r/pics/hot.json'', params = [(''limit'', JNum 5)]\<rparr>])
 \<and> item_has_raw \<lparr>item_fields = png_record, raw = Some png_link\<rparr>
 \<and> listing 2 (page_server sample_listing_page) plain_lib True ''pics'' ''hot'' (Some 5) None
       (Some False) []
     = (Done (), [\<lparr>item_fields = png_record, raw = None\<rparr>],
        [\<lparr>path = ''/r/pics/hot.json'', params = [(''limit'', JNum 5)]\<rparr>])
 \<and> map_outcome raw_comments_listing
       (fst (submission 3 expanding_server plain_lib True ''abc'' None None []))
     = Done (Some sample_comments)
 \<and> map_outcome raw_comments_listing
       (fst (submission 3 expanding_server plain_lib True ''abc'' None (Some False) []))
     = Done None"
proof -
  have a: "search_subreddits 2 (page_server sample_search_page) False ''cats'' (Some 5) (Some True) []
     = (Done [cats_record\<lparr>sr_raw :=
                 Some (JObj [(''id'', JStr ''s1''), (''display_name'', JStr ''cats'')])\<rparr>],
        [\<lparr>path = ''/subreddits/search.json'',
          params = [(''q'', JStr ''cats''), (''limit'', JNum 5)]\<rparr>])"
    by (simp add: search_subreddits_def page_server_def sample_search_page_def cats_record_def
        run_defs numeral_2_eq_2)
  note t1 = raw_attached_iff_full [where fuel = 2 and srv = "page_server sample_search_page"
      and return_full = False and return_full' = True and query = "''cats''" and limit = "Some 5"
      and full = "Some True" and hist = "[]"
      and rs = "[cats_record\<lparr>sr_raw :=
                 Some (JObj [(''id'', JStr ''s1''), (''display_name'', JStr ''cats'')])\<rparr>]"
      and ?h1.0 = "[\<lparr>path = ''/subreddits/search.json'',
          params = [(''q'', JStr ''cats''), (''limit'', JNum 5)]\<rparr>]"]
  from t1 a have a1: "has_raw (cats_record\<lparr>sr_raw :=
                 Some (JObj [(''id'', JStr ''s1''), (''display_name'', JStr ''cats'')])\<rparr>)"
    by (simp add: resolve_full_def)
  from t1 a have a2: "search_subreddits 2 (page_server sample_search_page) True ''cats'' (Some 5)
       (Some False) []
     = (Done [cats_record],
        [\<lparr>path = ''/subreddits/search.json'',
          params = [(''q'', JStr ''cats''), (''limit'', JNum 5)]\<rparr>])"
    by (simp add: without_raw_def cats_record_def)
  have s: "submission_fields_of plain_lib png_link = Inr png_record"
    by (simp add: submission_fields_of_def png_link_def png_record_def plain_lib_def media_defs)
  have b: "listing 2 (page_server sample_listing_page) plain_lib True ''pics'' ''hot'' (Some 5)
       None None []
     = (Done (), [\<lparr>item_fields = png_record, raw = Some png_link\<rparr>],
        [\<lparr>path = ''/r/pics/hot.json'', params = [(''limit'', JNum 5)]\<rparr>])"
    by (simp add: listing_def page_server_def sample_listing_page_def mixed_page_def s
        run_defs numeral_2_eq_2)
  note t2 = raw_attached_iff_full [where fuel = 2 and srv = "page_server sample_listing_page"
      and lib = plain_lib and return_full = True and return_full' = True and name = "''pics''"
      and sort_name = "''hot''" and limit = "Some 5" and time_filter = None and full = None
      and hist = "[]" and lres = "Done ()"
      and ys = "[\<lparr>item_fields = png_record, raw = Some png_link\<rparr>]"
      and ?h2.0 = "[\<lparr>path = ''/r/pics/hot.json'', params = [(''limit'', JNum 5)]\<rparr>]"]
  from t2 b have b1: "item_has_raw \<lparr>item_fields = png_record, raw = Some png_link\<rparr>"
    by (simp add: resolve_full_def)
  from t2 b have b2: "listing 2 (page_server sample_listing_page) plain_lib True ''pics'' ''hot''
       (Some 5) None (Some False) []
     = (Done (), [\<lparr>item_fields = png_record, raw = None\<rparr>],
        [\<lparr>path = ''/r/pics/hot.json'', params = [(''limit'', JNum 5)]\<rparr>])"
    by (simp add: item_without_raw_def)
  have c: "map_outcome raw_comments_listing
       (fst (submission 3 expanding_server plain_lib True ''abc'' None None []))
     = Done (Some sample_comments)"
    by (simp add: submission_def sample_thread_def link_info_of_def comments_listing_of_def
        submission_fields_of_def link_fullname_of_def media_defs sample_defs run_defs
        numeral_3_eq_3)
  note t3 = raw_attached_iff_full [where fuel = 3 and srv = expanding_server
      and lib = plain_lib and return_full = True and return_full' = True and ident = "''abc''"
      and more_limit = None and full = None and hist = "[]"]
  from t3 c have c2: "map_outcome raw_comments_listing
       (fst (submission 3 expanding_server plain_lib True ''abc'' None (Some False) []))
     = Done None"
    by (cases "fst (submission 3 expanding_server plain_lib True ''abc'' None None [])")
       (simp_all add: submission_without_raw_def)
  from a a1 a2 b b1 b2 c c2 show ?thesis by simp
qed

section \<open>The result budget of the paginator\<close>

text \<open>With a budget of at least one, no more items are delivered than the budget allows.\<close>

lemma listing_page_bound:
  "listing_page lib full items (Some k) yielded = (pe, yielded') \<Longrightarrow> 1 \<le> k \<Longrightarrow>
     int (length yielded') - int (length yielded) \<le> k
   \<and> (case pe of
        Continue r \<Rightarrow> r = Some (k - (int (length yielded') - int (length yielded)))
                       \<and> 1 \<le> k - (int (length yielded') - int (length yielded))
      | _ \<Rightarrow> True)"
proof (induction items arbitrary: k yielded)
  case Nil
  then show ?case by auto
next
  case (Cons child rest)
  show ?case
  proof (cases "dict_get child ''kind'' JNull")
    case (Inl e)
    with Cons.prems show ?thesis by auto
  next
    case k: (Inr kind)
    show ?thesis
    proof (cases "kind = JStr ''t3''")
      case False
      with k Cons.prems Cons.IH [of k yielded] show ?thesis by simp
    next
      case True
      show ?thesis
      proof (cases "subscript child ''data''")
        case (Inl e)
        with k True Cons.prems show ?thesis by auto
      next
        case i: (Inr info)
        show ?thesis
        proof (cases "submission_fields_of lib info")
          case (Inl e)
          with k True i Cons.prems show ?thesis by auto
        next
          case f: (Inr fs)
          define item where "item = \<lparr>item_fields = fs, raw = (if full then Some info else None)\<rparr>"
          show ?thesis
          proof (cases "k - 1 \<le> 0")
            case True
            with k \<open>kind = JStr ''t3''\<close> i f Cons.prems show ?thesis by auto
          next
            case False
            with k \<open>kind = JStr ''t3''\<close> i f Cons.prems(1)
            have "listing_page lib full rest (Some (k - 1)) (yielded @ [item]) = (pe, yielded')"
              by (simp add: item_def)
            from Cons.IH [OF this] False show ?thesis
              by (auto split: page_end.splits)
          qed
        qed
      qed
    qed
  qed
qed

lemma listing_loop_bound:
  "listing_loop fuel srv lib full p sort_name time_filter after (Some k) yielded hist
      = (res, ys, hist') \<Longrightarrow> 1 \<le> k \<Longrightarrow>
     int (length ys) - int (length yielded) \<le> k"
proof (induction fuel arbitrary: after k yielded hist)
  case 0
  then show ?case by simp
next
  case (Suc fuel)
  obtain g h where g: "reddit_get srv p (listing_params sort_name time_filter after (Some k)) hist
      = (g, h)"
    by (cases "reddit_get srv p (listing_params sort_name time_filter after (Some k)) hist") auto
  show ?case
  proof (cases g)
    case (Inl e)
    with Suc.prems g show ?thesis by auto
  next
    case (Inr data)
    show ?thesis
    proof (cases "page_children data")
      case (Inl e)
      with Suc.prems g Inr show ?thesis by auto
    next
      case ch: (Inr children)
      show ?thesis
      proof (cases "iter_items children")
        case (Inl e)
        with Suc.prems g Inr ch show ?thesis by auto
      next
        case it: (Inr items)
        obtain pe acc' where pg: "listing_page lib full items (Some k) yielded = (pe, acc')"
          by (cases "listing_page lib full items (Some k) yielded") auto
        note b = listing_page_bound [OF pg Suc.prems(2)]
        show ?thesis
        proof (cases pe)
          case (Failed e)
          with Suc.prems g Inr ch it pg b show ?thesis by auto
        next
          case Returned
          with Suc.prems g Inr ch it pg b show ?thesis by auto
        next
          case (Continue remaining')
          with b have r: "remaining' = Some (k - (int (length acc') - int (length yielded)))"
            and k': "1 \<le> k - (int (length acc') - int (length yielded))" by simp_all
          show ?thesis
          proof (cases "page_after data")
            case (Inl e)
            with Suc.prems g Inr ch it pg Continue b show ?thesis by auto
          next
            case af: (Inr after')
            show ?thesis
            proof (cases "\<not> truthy after' \<or> \<not> truthy children")
              case True
              with Suc.prems g Inr ch it pg Continue af b show ?thesis by auto
            next
              case False
              with Suc.prems(1) g Inr ch it pg Continue af r
              have "listing_loop fuel srv lib full p sort_name time_filter after'
                      (Some (k - (int (length acc') - int (length yielded)))) acc' h
                    = (res, ys, hist')"
                by auto
              from Suc.IH [OF this k'] show ?thesis by simp
            qed
          qed
        qed
      qed
    qed
  qed
qed

lemma listing_at_most_limit:
  assumes "listing fuel srv lib return_full name sort_name (Some k) time_filter full hist
      = (res, ys, hist')" and "1 \<le> k"
  shows "int (length ys) \<le> k"
  using listing_loop_bound [OF assms(1) [unfolded listing_def] assms(2)] by simp

lemma search_page_bound:
  "search_page full items (Some k) results = (pe, results') \<Longrightarrow> 1 \<le> k \<Longrightarrow>
     int (length results') - int (length results) \<le> k
   \<and> (case pe of
        Continue r \<Rightarrow> r = Some (k - (int (length results') - int (length results)))
                       \<and> 1 \<le> k - (int (length results') - int (length results))
      | _ \<Rightarrow> True)"
proof (induction items arbitrary: k results)
  case Nil
  then show ?case by auto
next
  case (Cons child rest)
  show ?case
  proof (cases "subreddit_of full child")
    case (Inl e)
    with Cons.prems show ?thesis by auto
  next
    case (Inr r)
    show ?thesis
    proof (cases "k - 1 \<le> 0")
      case True
      with Inr Cons.prems show ?thesis by auto
    next
      case False
      with Inr Cons.prems(1)
      have "search_page full rest (Some (k - 1)) (results @ [r]) = (pe, results')" by simp
      from Cons.IH [OF this] False show ?thesis
        by (auto split: page_end.splits)
    qed
  qed
qed

lemma search_loop_bound:
  "search_loop fuel srv full query after (Some k) results hist = (Done rs, hist') \<Longrightarrow>
     1 \<le> k \<Longrightarrow> int (length rs) - int (length results) \<le> k"
proof (induction fuel arbitrary: after k results hist)
  case 0
  then show ?case by simp
next
  case (Suc fuel)
  let ?ps = "[(''q'', JStr query), (''limit'', JNum (of_int (page_size (Some k))))]
              @ (if truthy after then [(''after'', after)] else [])"
  obtain g h where g: "reddit_get srv ''/subreddits/search.json'' ?ps hist = (g, h)"
    by (cases "reddit_get srv ''/subreddits/search.json'' ?ps hist") auto
  show ?case
  proof (cases g)
    case (Inl e)
    with Suc.prems g show ?thesis by auto
  next
    case (Inr data)
    show ?thesis
    proof (cases "page_children data")
      case (Inl e)
      with Suc.prems g Inr show ?thesis by auto
    next
      case ch: (Inr children)
      show ?thesis
      proof (cases "iter_items children")
        case (Inl e)
        with Suc.prems g Inr ch show ?thesis by auto
      next
        case it: (Inr items)
        obtain pe acc' where pg: "search_page full items (Some k) results = (pe, acc')"
          by (cases "search_page full items (Some k) results") auto
        note b = search_page_bound [OF pg Suc.prems(2)]
        show ?thesis
        proof (cases pe)
          case (Failed e)
          with Suc.prems g Inr ch it pg b show ?thesis by auto
        next
          case Returned
          with Suc.prems g Inr ch it pg b show ?thesis by auto
        next
          case (Continue remaining')
          with b have r: "remaining' = Some (k - (int (length acc') - int (length results)))"
            and k': "1 \<le> k - (int (length acc') - int (length results))" by simp_all
          show ?thesis
          proof (cases "page_after data")
            case (Inl e)
            with Suc.prems g Inr ch it pg Continue b show ?thesis by auto
          next
            case af: (Inr after')
            show ?thesis
            proof (cases "\<not> truthy after' \<or> \<not> truthy children")
              case True
              with Suc.prems g Inr ch it pg Continue af b show ?thesis by auto
            next
              case False
              with Suc.prems(1) g Inr ch it pg Continue af r
              have "search_loop fuel srv full query after'
                      (Some (k - (int (length acc') - int (length results)))) acc' h
                    = (Done rs, hist')"
                by auto
              from Suc.IH [OF this k'] show ?thesis by simp
            qed
          qed
        qed
      qed
    qed
  qed
qed

lemma search_at_most_limit:
  assumes "search_subreddits fuel srv return_full query (Some k) full hist = (Done rs, hist')"
    and "1 \<le> k"
  shows "int (length rs) \<le> k"
  using search_loop_bound [OF assms(1) [unfolded search_subreddits_def] assms(2)] by simp

text \<open>A page without a continuation cursor, or without items, is the last page requested.\<close>

lemma listing_stops_without_cursor:
  assumes "reddit_get srv p (listing_params sort_name time_filter after remaining) hist
             = (Inr data, hist')"
    and "page_children data = Inr children" and "iter_items children = Inr items"
    and "listing_page lib full items remaining yielded = (Continue remaining', yielded')"
    and "page_after data = Inr after'" and "\<not> truthy after' \<or> \<not> truthy children"
  shows "listing_loop (Suc fuel) srv lib full p sort_name time_filter after remaining yielded hist
       = (Done (), yielded', hist')"
  using assms by simp

text \<open>The page size requested is that of the budget that remains, at most 100.\<close>

lemma listing_page_size:
  "map_of (listing_params sort_name time_filter after remaining) ''limit''
     = Some (JNum (of_int (case remaining of None \<Rightarrow> 100 | Some k \<Rightarrow> min k 100)))"
  by (simp add: listing_params_def page_size_def)

text \<open>
  Claim C4, at a budget of zero. The budget is tested only after an item has been
  appended or yielded, so a search and a listing called with \<open>limit = 0\<close> against a
  service that answers with a page of one item both deliver that item: one item,
  where the claim allows none.
\<close>

theorem zero_limit_delivers_an_item:
  "search_subreddits 2 (page_server sample_search_page) False ''cats'' (Some 0) None []
     = (Done [cats_record],
        [\<lparr>path = ''/subreddits/search.json'',
          params = [(''q'', JStr ''cats''), (''limit'', JNum 0)]\<rparr>])
 \<and> listing 2 (page_server sample_listing_page) plain_lib False ''pics'' ''hot'' (Some 0) None None []
     = (Done (), [\<lparr>item_fields = png_record, raw = None\<rparr>],
        [\<lparr>path = ''/r/pics/hot.json'', params = [(''limit'', JNum 0)]\<rparr>])"
proof -
  have s: "submission_fields_of plain_lib png_link = Inr png_record"
    by (simp add: submission_fields_of_def png_link_def png_record_def plain_lib_def media_defs)
  show ?thesis
    by (simp add: search_subreddits_def listing_def page_server_def sample_search_page_def
        sample_listing_page_def mixed_page_def cats_record_def s run_defs numeral_2_eq_2)
qed

end
